theory Spec2Isabelle
  imports Main "HOL-Library.Word"
begin

section \<open>Scalars, vectors and scene descriptions\<close>

text \<open>
  The host code of \<^verbatim>\<open>src/base/integrator.cpp\<close> counts with \<^verbatim>\<open>unsigned int\<close>
  (\<^verbatim>\<open>0u\<close>, \<^verbatim>\<open>32u\<close>, \<^verbatim>\<open>auto i = 0u\<close>): a 32-bit word whose arithmetic wraps.
  The display interval is stored through \<^verbatim>\<open>static_cast<uint16_t>\<close>.
  Floating-point values (shutter time and weight) are only passed on, never computed
  with, so they are values of an arbitrary type \<open>'f\<close>.
\<close>

type_synonym uint = "32 word"
type_synonym uint16_t = "16 word"

datatype uint2 = make_uint2 (vec_x: uint) (vec_y: uint)

datatype SceneNodeTag = INTEGRATOR | SAMPLER | LIGHT_SAMPLER

datatype SceneNodeDesc =
  SceneNodeDesc
    (desc_tag: SceneNodeTag)
    (desc_impl_type: string)
    (uint_properties: "(string \<times> uint) list")
    (bool_properties: "(string \<times> bool) list")
    (node_properties: "(string \<times> SceneNodeDesc) list")

text \<open>
  Modelled from the spec: \<^verbatim>\<open>SceneNodeDesc::property_uint_or_default\<close>,
  \<^verbatim>\<open>property_bool_or_default\<close> and \<^verbatim>\<open>property_node_or_default\<close> are declared in
  \<^verbatim>\<open>sdl/scene_node_desc.h\<close>, which is not among the sources. The spec says that a default
  is applied when the option is absent; a present option is returned. The boolean
  default of \<^verbatim>\<open>display\<close> is \<open>False\<close> (spec, table of options).
\<close>

definition property_uint_or_default :: "SceneNodeDesc \<Rightarrow> string \<Rightarrow> uint \<Rightarrow> uint" where
  "property_uint_or_default desc name dflt =
     (case map_of (uint_properties desc) name of None \<Rightarrow> dflt | Some v \<Rightarrow> v)"

definition property_bool_or_default :: "SceneNodeDesc \<Rightarrow> string \<Rightarrow> bool" where
  "property_bool_or_default desc name =
     (case map_of (bool_properties desc) name of None \<Rightarrow> False | Some v \<Rightarrow> v)"

definition property_node_or_default ::
  "SceneNodeDesc \<Rightarrow> string \<Rightarrow> SceneNodeDesc \<Rightarrow> SceneNodeDesc" where
  "property_node_or_default desc name dflt =
     (case map_of (node_properties desc) name of None \<Rightarrow> dflt | Some d \<Rightarrow> d)"

text \<open>
  Modelled from the spec: \<^verbatim>\<open>SceneNodeDesc::shared_default_sampler\<close> and
  \<^verbatim>\<open>shared_default_light_sampler\<close> (same header) give the description of a default node
  of the named implementation, with no property set.
\<close>

definition shared_default_sampler :: "string \<Rightarrow> SceneNodeDesc" where
  "shared_default_sampler impl = SceneNodeDesc SAMPLER impl [] [] []"

definition shared_default_light_sampler :: "string \<Rightarrow> SceneNodeDesc" where
  "shared_default_light_sampler impl = SceneNodeDesc LIGHT_SAMPLER impl [] [] []"

text \<open>
  A loaded sampler or light-sampler node is an object with a virtual \<^verbatim>\<open>build\<close> method: a
  record with a function field. Nodes, their \<^verbatim>\<open>build\<close> methods and the scene's loaders
  are external. Modelled from the spec: \<^verbatim>\<open>build\<close> (declared in \<^verbatim>\<open>base/sampler.h\<close> and
  \<^verbatim>\<open>base/light_sampler.h\<close>, not among the sources) instantiates a device-resident object
  and returns the owning pointer to it; the model's \<open>node_build\<close> returns the object, and
  the members that hold such pointers are options.
\<close>

record ('p, 'i) scene_node =
  node_desc :: SceneNodeDesc
  node_build :: "'p \<Rightarrow> 'i"

record ('p, 'si, 'li) scene =
  load_sampler :: "SceneNodeDesc \<Rightarrow> ('p, 'si) scene_node"
  load_light_sampler :: "SceneNodeDesc \<Rightarrow> ('p, 'li) scene_node"

section \<open>Integrator nodes (configuration)\<close>

record ('p, 'si, 'li) integrator_node =
  node_sampler :: "('p, 'si) scene_node"
  node_light_sampler :: "('p, 'li) scene_node"

record ('p, 'si, 'li) progressive_integrator_node = "('p, 'si, 'li) integrator_node" +
  display_interval :: uint16_t
  display_enabled :: bool

text \<open>\<^verbatim>\<open>Integrator::Integrator\<close>, lines 14 to 19.\<close>

definition Integrator ::
  "('p, 'si, 'li) scene \<Rightarrow> SceneNodeDesc \<Rightarrow> ('p, 'si, 'li) integrator_node" where
  "Integrator scn desc =
     \<lparr> node_sampler = load_sampler scn
         (property_node_or_default desc ''sampler'' (shared_default_sampler ''independent'')),
       node_light_sampler = load_light_sampler scn
         (property_node_or_default desc ''light_sampler''
            (shared_default_light_sampler ''uniform'')) \<rparr>"

text \<open>\<^verbatim>\<open>std::clamp(v, lo, hi)\<close> on \<^verbatim>\<open>unsigned int\<close>.\<close>

definition clamp :: "uint \<Rightarrow> uint \<Rightarrow> uint \<Rightarrow> uint" where
  "clamp v lo hi = (if v < lo then lo else if hi < v then hi else v)"

text \<open>\<^verbatim>\<open>ProgressiveIntegrator::ProgressiveIntegrator\<close>, lines 132 to 136.\<close>

definition ProgressiveIntegrator ::
  "('p, 'si, 'li) scene \<Rightarrow> SceneNodeDesc \<Rightarrow> ('p, 'si, 'li) progressive_integrator_node" where
  "ProgressiveIntegrator scn desc =
     \<lparr> node_sampler = node_sampler (Integrator scn desc),
       node_light_sampler = node_light_sampler (Integrator scn desc),
       display_interval =
         (ucast (clamp (property_uint_or_default desc ''display_interval'' 1) 1 65535)
            :: uint16_t),
       display_enabled = property_bool_or_default desc ''display'' \<rparr>"

section \<open>Cameras and pipeline\<close>

record 'f ShutterSample =
  point_time :: 'f
  point_weight :: 'f
  ss_spp :: uint

record 'f camera =
  cam_spp :: uint
  cam_file :: string
  film_resolution :: uint2
  shutter_samples :: "'f ShutterSample list"

record 'f pipeline =
  has_lighting :: bool
  cameras :: "'f camera list"

datatype Display = Display string

section \<open>Errors and the sampling extension point\<close>

text \<open>
  \<^verbatim>\<open>LUISA_ERROR_WITH_LOCATION\<close> logs the message with the file and line of the call and
  aborts the process: a fatal error value. The host code could fail in two other ways:
  the remainder by zero (\<^verbatim>\<open>%\<close> at line 109) and the dereference of a null pointer
  (\<^verbatim>\<open>sampler()->reset\<close> at line 66).
\<close>

datatype error =
  Fatal string string nat
| DivisionByZero
| NullDereference

text \<open>
  The arguments and the result of \<^verbatim>\<open>Li\<close> (\<^verbatim>\<open>Expr<uint>\<close>, \<^verbatim>\<open>Expr<uint2>\<close>,
  \<^verbatim>\<open>Expr<float>\<close>, \<^verbatim>\<open>Float3\<close>) are expressions of the compute library's embedded
  language, built on the host and evaluated on the device. The library is external; an
  expression is a kernel argument given by its position, the dispatch identifier, or a
  named operation applied to expressions.
\<close>

datatype Expr =
  KernelArgument nat
| DispatchId
| Apply string "Expr list"

text \<open>\<^verbatim>\<open>ProgressiveIntegrator::Instance::Li\<close>, lines 127 to 130.\<close>

definition Li :: "'f camera \<Rightarrow> Expr \<Rightarrow> Expr \<Rightarrow> Expr \<Rightarrow> error + 'c" where
  "Li cam frame_index pixel_id time =
     Inl (Fatal ''ProgressiveIntegrator::Li() is not implemented.''
            ''src/base/integrator.cpp'' 129)"

section \<open>Instances\<close>

text \<open>
  The two instance classes, the derived one extending the base one. The base class holds
  a pointer to any \<^verbatim>\<open>Integrator\<close>; \<^verbatim>\<open>node<ProgressiveIntegrator>()\<close> reads it at the
  derived type, so the derived record fixes the node's type. The members \<^verbatim>\<open>_sampler\<close>,
  \<^verbatim>\<open>_light_sampler\<close> and \<^verbatim>\<open>_display\<close> are owning pointers, \<open>None\<close> when null. \<^verbatim>\<open>Li\<close> is
  a virtual member function: the record has a field for the implementation that a call
  on the object reaches.
\<close>

record ('f, 'si, 'li, 'z) integrator_instance =
  inst_pipeline :: "'f pipeline"
  inst_integrator :: "('f pipeline, 'si, 'li, 'z) integrator_node_scheme"
  inst_sampler :: "'si option"
  inst_light_sampler :: "'li option"

record ('f, 'si, 'li) progressive_instance =
  "('f, 'si, 'li, unit progressive_integrator_node_ext)
     integrator_instance" +
  inst_display :: "Display option"
  inst_Li :: "'f camera \<Rightarrow> Expr \<Rightarrow> Expr \<Rightarrow> Expr \<Rightarrow> error + Expr"

text \<open>\<^verbatim>\<open>Integrator::Instance::Instance\<close>, lines 21 to 26.\<close>

definition Integrator_Instance ::
  "'f pipeline \<Rightarrow> ('f pipeline, 'si, 'li, 'z) integrator_node_scheme
     \<Rightarrow> ('f, 'si, 'li, 'z) integrator_instance" where
  "Integrator_Instance pl integrator =
     \<lparr> inst_pipeline = pl,
       inst_integrator = integrator,
       inst_sampler = Some (node_build (node_sampler integrator) pl),
       inst_light_sampler =
         (if has_lighting pl then Some (node_build (node_light_sampler integrator) pl)
          else None) \<rparr>"

text \<open>
  \<^verbatim>\<open>ProgressiveIntegrator::Instance::Instance\<close>, lines 28 to 35: the base constructor,
  then \<^verbatim>\<open>_display\<close>, null unless the node enables the display. An object of this class
  has the \<^verbatim>\<open>Li\<close> of lines 127 to 130.
\<close>

definition ProgressiveIntegrator_Instance ::
  "'f pipeline \<Rightarrow> ('f pipeline, 'si, 'li) progressive_integrator_node
     \<Rightarrow> ('f, 'si, 'li) progressive_instance" where
  "ProgressiveIntegrator_Instance pl node =
     (let base = Integrator_Instance pl node
      in \<lparr> inst_pipeline = inst_pipeline base,
           inst_integrator = inst_integrator base,
           inst_sampler = inst_sampler base,
           inst_light_sampler = inst_light_sampler base,
           inst_display = (if display_enabled node then Some (Display ''Display'') else None),
           inst_Li = Li \<rparr>)"

text \<open>
  Modelled from the spec: the concrete rendering strategies are classes derived from
  \<^verbatim>\<open>ProgressiveIntegrator::Instance\<close>, defined in other files of the repository. Each
  supplies its own \<^verbatim>\<open>Li\<close> (the spec: the default implementation is intentionally
  unusable, forcing every concrete rendering strategy to supply its own). The constructor
  of such a class runs the constructor above; a call of \<^verbatim>\<open>Li\<close> on the object reaches
  the override, which is a parameter here.
\<close>

definition derived_instance ::
  "('f camera \<Rightarrow> Expr \<Rightarrow> Expr \<Rightarrow> Expr \<Rightarrow> error + Expr) \<Rightarrow> 'f pipeline
     \<Rightarrow> ('f pipeline, 'si, 'li) progressive_integrator_node
     \<Rightarrow> ('f, 'si, 'li) progressive_instance" where
  "derived_instance li pl node = (ProgressiveIntegrator_Instance pl node)\<lparr>inst_Li := li\<rparr>"

section \<open>The host side of a render session\<close>

text \<open>
  What the host does is recorded as a trace of events, in program order: the commands it
  puts on the command buffer and its calls to the external collaborators (film, sampler,
  pipeline, display, progress bar). Logging and the clocks are left out. The definition
  of the kernel (lines 77 to 82) puts nothing on the command buffer and leaves no event;
  it can end the run, and is modelled by \<open>render_kernel\<close> below.
\<close>

datatype 'f event =
  FilmPrepare "'f camera"
| DisplayReset "'f camera"
| SamplerReset uint2 uint uint
| PrinterReset
| Synchronize
| CompileKernel "'f camera"
| ProgressStart
| PipelineUpdate 'f
| Dispatch uint 'f 'f uint2
| PrinterRetrieve
| DisplayUpdate uint
| ProgressUpdate uint uint
| DeferredProgress uint uint
| ProgressDone
| DisplayIdle
| FilmDownload "'f camera" uint
| FilmRelease "'f camera"
| SaveImage string uint2

text \<open>
  The answers of the external collaborators are inputs of the host program. Each is given
  by the number of the call: \<open>printer_empty E k\<close> is what the \<open>k\<close>-th call of
  \<^verbatim>\<open>pipeline().printer().empty()\<close> returns, and so on for \<^verbatim>\<open>Display::should_close\<close>,
  \<^verbatim>\<open>Display::update\<close> and \<^verbatim>\<open>Display::idle\<close>.
\<close>

record env =
  printer_empty :: "nat \<Rightarrow> bool"
  display_should_close :: "nat \<Rightarrow> bool"
  display_update :: "nat \<Rightarrow> bool"
  display_idle :: "nat \<Rightarrow> bool"

text \<open>
  One entry of the observation log per iteration of the inner loop: the sample index
  handed to the dispatch, the incremented \<^verbatim>\<open>dispatch_count\<close>, the value of
  \<^verbatim>\<open>dispatches_per_commit\<close> and whether the commit branch was taken. The log only
  observes local variables; nothing reads it.
\<close>

record iteration =
  it_sample_id :: uint
  it_count :: uint
  it_cadence :: uint
  it_commit :: bool

text \<open>
  The state threaded through the host code: the trace, how often each external query has
  been made, the two counters of \<^verbatim>\<open>_render_one_camera\<close> (lines 95 and 96), the log, and
  the object on which \<^verbatim>\<open>render\<close> is called, with its members as they are at that point
  of the run.
\<close>

record ('f, 'si, 'li) render_state =
  trace :: "'f event list"
  printer_polls :: nat
  close_polls :: nat
  update_polls :: nat
  idle_polls :: nat
  dispatch_count :: uint
  sample_id :: uint
  iterations :: "iteration list"
  self :: "('f, 'si, 'li) progressive_instance"

text \<open>
  A piece of host code returns the state it reaches, or it aborts with an error; an
  abort keeps the state reached, so that what was done before it can be read.
\<close>

type_synonym ('f, 'si, 'li) outcome =
  "error \<times> ('f, 'si, 'li) render_state + ('f, 'si, 'li) render_state"

definition final_state :: "('f, 'si, 'li) outcome \<Rightarrow> ('f, 'si, 'li) render_state" where
  "final_state r = (case r of Inl (e, st) \<Rightarrow> st | Inr st \<Rightarrow> st)"

definition emit :: "'f event \<Rightarrow> ('f, 'si, 'li) render_state \<Rightarrow> ('f, 'si, 'li) render_state" where
  "emit e st = st\<lparr>trace := trace st @ [e]\<rparr>"

text \<open>Lines 102 to 104: query the printer, retrieve if it is not empty.\<close>

definition retrieve_printer :: "env \<Rightarrow> ('f, 'si, 'li) render_state \<Rightarrow> ('f, 'si, 'li) render_state" where
  "retrieve_printer E st =
     (let is_empty = printer_empty E (printer_polls st);
          st' = st\<lparr>printer_polls := Suc (printer_polls st)\<rparr>
      in if \<not> is_empty then emit PrinterRetrieve st' else st')"

text \<open>
  Lines 105 to 108. \<^verbatim>\<open>_display && !_display->should_close()\<close> queries the display only
  when there is one. The interval is converted to \<^verbatim>\<open>unsigned int\<close> by the conditional
  operator.
\<close>

definition dispatches_per_commit ::
  "env \<Rightarrow> ('f, 'si, 'li) progressive_instance \<Rightarrow> ('f, 'si, 'li) render_state \<Rightarrow> uint \<times> ('f, 'si, 'li) render_state"
  where
  "dispatches_per_commit E inst st =
     (case inst_display inst of
        None \<Rightarrow> (32, st)
      | Some d \<Rightarrow>
          (let closing = display_should_close E (close_polls st);
               st' = st\<lparr>close_polls := Suc (close_polls st)\<rparr>
           in (if \<not> closing then ucast (display_interval (inst_integrator inst)) else 32, st')))"

text \<open>
  Lines 110 to 116, the commit branch. The progress value \<^verbatim>\<open>p\<close> is the quotient of
  \<^verbatim>\<open>sample_id\<close> and \<^verbatim>\<open>spp\<close> in floating point; the events carry the two operands.
\<close>

definition commit ::
  "env \<Rightarrow> ('f, 'si, 'li) progressive_instance \<Rightarrow> uint \<Rightarrow> ('f, 'si, 'li) render_state \<Rightarrow> ('f, 'si, 'li) render_state"
  where
  "commit E inst spp st =
     (let st0 = st\<lparr>dispatch_count := 0\<rparr>
      in case inst_display inst of
           None \<Rightarrow> emit (DeferredProgress (sample_id st0) spp) st0
         | Some d \<Rightarrow>
             (let consumed = display_update E (update_polls st0);
                  st1 = emit (DisplayUpdate (sample_id st0))
                          (st0\<lparr>update_polls := Suc (update_polls st0)\<rparr>)
              in if consumed then emit (ProgressUpdate (sample_id st1) spp) st1
                 else emit (DeferredProgress (sample_id st1) spp) st1))"

text \<open>
  Lines 100 to 117, the body of the inner loop. The remainder by zero is undefined in C++
  and is an error of the model.
\<close>

definition dispatch_one ::
  "env \<Rightarrow> ('f, 'si, 'li) progressive_instance \<Rightarrow> 'f camera \<Rightarrow> 'f ShutterSample
     \<Rightarrow> ('f, 'si, 'li) render_state \<Rightarrow> ('f, 'si, 'li) outcome" where
  "dispatch_one E inst cam s st =
     (let st1 = emit (Dispatch (sample_id st) (point_time s) (point_weight s)
                        (film_resolution cam)) st;
          st2 = st1\<lparr>sample_id := sample_id st1 + 1\<rparr>;
          st3 = retrieve_printer E st2;
          (per_commit, st4) = dispatches_per_commit E inst st3
      in if per_commit = 0 then Inl (DivisionByZero, st4)
         else
           (let st5 = st4\<lparr>dispatch_count := dispatch_count st4 + 1\<rparr>;
                fires = (dispatch_count st5 mod per_commit = 0);
                st6 = st5\<lparr>iterations := iterations st5 @
                        [\<lparr>it_sample_id = sample_id st, it_count = dispatch_count st5,
                          it_cadence = per_commit, it_commit = fires\<rparr>]\<rparr>
            in Inr (if fires then commit E inst (cam_spp cam) st6 else st6)))"

text \<open>Lines 99 to 118, \<^verbatim>\<open>for (auto i = 0u; i < s.spp; i++)\<close>.\<close>

function sub_samples ::
  "env \<Rightarrow> ('f, 'si, 'li) progressive_instance \<Rightarrow> 'f camera \<Rightarrow> 'f ShutterSample \<Rightarrow> uint
     \<Rightarrow> ('f, 'si, 'li) render_state \<Rightarrow> ('f, 'si, 'li) outcome" where
  "sub_samples E inst cam s i st =
     (if i < ss_spp s then
        (case dispatch_one E inst cam s st of
           Inl e \<Rightarrow> Inl e
         | Inr st' \<Rightarrow> sub_samples E inst cam s (i + 1) st')
      else Inr st)"
  by pat_completeness auto
termination
proof (relation "measure (\<lambda>(E, inst, cam, s, i, st). unat (ss_spp s) - unat i)")
  show "wf (measure (\<lambda>(E, inst, cam, s, i, st). unat (ss_spp s) - unat i))"
    by simp
next
  fix E :: env and inst :: "('f, 'si, 'li) progressive_instance" and cam :: "'f camera"
    and s :: "'f ShutterSample" and i :: uint and st x2 :: "('f, 'si, 'li) render_state"
  assume less: "i < ss_spp s"
  then have "unat i < unat (ss_spp s)"
    by (simp add: word_less_nat_alt)
  moreover have "unat (ss_spp s) < 2 ^ 32"
    using unsigned_less [of "ss_spp s"] by simp
  ultimately have "unat i + 1 < 2 ^ 32"
    by linarith
  then have "unat (i + 1) = Suc (unat i)"
    by (simp add: unat_word_ariths)
  with \<open>unat i < unat (ss_spp s)\<close> show "((E, inst, cam, s, i + 1, x2), (E, inst, cam, s, i, st))
      \<in> measure (\<lambda>(E, inst, cam, s, i, st). unat (ss_spp s) - unat i)"
    by simp
qed

declare sub_samples.simps [simp del]

text \<open>Lines 97 to 119, \<^verbatim>\<open>for (auto s : shutter_samples)\<close>.\<close>

fun shutter_loop ::
  "env \<Rightarrow> ('f, 'si, 'li) progressive_instance \<Rightarrow> 'f camera \<Rightarrow> 'f ShutterSample list
     \<Rightarrow> ('f, 'si, 'li) render_state \<Rightarrow> ('f, 'si, 'li) outcome" where
  "shutter_loop E inst cam [] st = Inr st"
| "shutter_loop E inst cam (s # ss) st =
     (case sub_samples E inst cam s 0 (emit (PipelineUpdate (point_time s)) st) of
        Inl e \<Rightarrow> Inl e
      | Inr st' \<Rightarrow> shutter_loop E inst cam ss st')"

text \<open>
  Lines 77 to 82. \<^verbatim>\<open>Kernel2D render_kernel = [&](...) {...}\<close> defines the kernel: the
  compute library runs the lambda once on the host, with the kernel's three arguments and
  the dispatch identifier as expressions, and records the body that the device will run
  at each dispatch. The call of \<^verbatim>\<open>Li\<close> in the lambda is therefore a virtual call made on
  the host, once, before the loop; when it ends in an error no kernel is defined. The
  recorded body is the film's accumulation of the weighted colour at the pixel; the
  block size of line 78 is left out.
\<close>

definition render_kernel ::
  "('f, 'si, 'li) progressive_instance \<Rightarrow> 'f camera \<Rightarrow> error + Expr" where
  "render_kernel inst cam =
     (let frame_index = KernelArgument 0;
          time = KernelArgument 1;
          shutter_weight = KernelArgument 2;
          pixel_id = Apply ''xy'' [DispatchId]
      in case inst_Li inst cam frame_index pixel_id time of
           Inl e \<Rightarrow> Inl e
         | Inr L \<Rightarrow> Inr (Apply ''accumulate'' [pixel_id, Apply ''*'' [shutter_weight, L]]))"

text \<open>
  \<^verbatim>\<open>ProgressiveIntegrator::Instance::_render_one_camera\<close>, lines 58 to 125, called on
  the object \<open>inst\<close>. \<^verbatim>\<open>sampler()\<close> returns the pointer held in \<^verbatim>\<open>_sampler\<close>, which line
  66 dereferences.
\<close>

definition render_one_camera ::
  "env \<Rightarrow> ('f, 'si, 'li) progressive_instance \<Rightarrow> 'f camera \<Rightarrow> ('f, 'si, 'li) render_state
     \<Rightarrow> ('f, 'si, 'li) outcome" where
  "render_one_camera E inst cam st =
     (let spp = cam_spp cam;
          resolution = film_resolution cam;
          pixel_count = vec_x resolution * vec_y resolution
      in case inst_sampler inst of
           None \<Rightarrow> Inl (NullDereference, st)
         | Some smp \<Rightarrow>
             (let st1 = emit (SamplerReset resolution pixel_count spp) st;
                  st2 = emit PrinterReset st1;
                  st3 = emit Synchronize st2
              in case render_kernel inst cam of
                   Inl e \<Rightarrow> Inl (e, st3)
                 | Inr body \<Rightarrow>
                     (let st4 = emit (CompileKernel cam) st3;
                          st5 = emit Synchronize st4;
                          st6 = emit ProgressStart st5;
                          st7 = st6\<lparr>dispatch_count := 0, sample_id := 0\<rparr>
                      in case shutter_loop E inst cam (shutter_samples cam) st7 of
                           Inl e \<Rightarrow> Inl e
                         | Inr st8 \<Rightarrow> Inr (emit ProgressDone (emit Synchronize st8)))))"

text \<open>
  Line 48, \<^verbatim>\<open>while (_display && _display->idle(command_buffer)) {}\<close>. The loop need not
  end: the result \<open>None\<close> stands for a loop that runs forever.
\<close>

partial_function (option) drain_display ::
  "env \<Rightarrow> Display option \<Rightarrow> ('f, 'si, 'li) render_state \<Rightarrow> ('f, 'si, 'li) render_state option" where
  "drain_display E disp st =
     (case disp of
        None \<Rightarrow> Some st
      | Some d \<Rightarrow>
          (if display_idle E (idle_polls st)
           then drain_display E disp (emit DisplayIdle (st\<lparr>idle_polls := Suc (idle_polls st)\<rparr>))
           else Some (emit DisplayIdle (st\<lparr>idle_polls := Suc (idle_polls st)\<rparr>))))"

text \<open>
  The loop of \<^verbatim>\<open>ProgressiveIntegrator::Instance::render\<close>, lines 41 to 55, on the object
  \<open>inst\<close>. The loop over the camera indices visits the pipeline's cameras in order.
\<close>

fun render_cameras ::
  "env \<Rightarrow> ('f, 'si, 'li) progressive_instance \<Rightarrow> 'f camera list \<Rightarrow> ('f, 'si, 'li) render_state
     \<Rightarrow> ('f, 'si, 'li) outcome option" where
  "render_cameras E inst [] st = Some (Inr st)"
| "render_cameras E inst (cam # cams) st =
     (let resolution = film_resolution cam;
          pixel_count = vec_x resolution * vec_y resolution;
          st1 = emit (FilmPrepare cam) st;
          st2 = (case inst_display inst of None \<Rightarrow> st1 | Some d \<Rightarrow> emit (DisplayReset cam) st1)
      in case render_one_camera E inst cam st2 of
           Inl e \<Rightarrow> Some (Inl e)
         | Inr st3 \<Rightarrow>
             (case drain_display E (inst_display inst) st3 of
                None \<Rightarrow> None
              | Some st4 \<Rightarrow>
                  render_cameras E inst cams
                    (emit (SaveImage (cam_file cam) resolution)
                      (emit (FilmRelease cam)
                        (emit Synchronize
                          (emit (FilmDownload cam pixel_count) st4))))))"

text \<open>
  \<^verbatim>\<open>ProgressiveIntegrator::Instance::render\<close>, lines 39 to 56: the member function, called
  on the object held in the state.
\<close>

definition render ::
  "env \<Rightarrow> ('f, 'si, 'li) render_state \<Rightarrow> ('f, 'si, 'li) outcome option" where
  "render E st = render_cameras E (self st) (cameras (inst_pipeline (self st))) st"

section \<open>Observing a run\<close>

text \<open>
  The events and log entries that a piece of host code adds to a state: what the final
  state holds beyond the initial one.
\<close>

definition new_events :: "('f, 'si, 'li) render_state \<Rightarrow> ('f, 'si, 'li) render_state \<Rightarrow> 'f event list" where
  "new_events st st' = drop (length (trace st)) (trace st')"

definition new_iterations :: "('f, 'si, 'li) render_state \<Rightarrow> ('f, 'si, 'li) render_state \<Rightarrow> iteration list" where
  "new_iterations st st' = drop (length (iterations st)) (iterations st')"

fun is_Dispatch :: "'f event \<Rightarrow> bool" where
  "is_Dispatch (Dispatch i t w r) = True"
| "is_Dispatch e = False"

fun is_PipelineUpdate :: "'f event \<Rightarrow> bool" where
  "is_PipelineUpdate (PipelineUpdate t) = True"
| "is_PipelineUpdate e = False"

fun is_progress :: "'f event \<Rightarrow> bool" where
  "is_progress (ProgressUpdate i n) = True"
| "is_progress (DeferredProgress i n) = True"
| "is_progress e = False"

text \<open>The sample indices of the dispatches of a trace, in the order of submission.\<close>

fun dispatch_indices :: "'f event list \<Rightarrow> uint list" where
  "dispatch_indices [] = []"
| "dispatch_indices (Dispatch i t w r # es) = i # dispatch_indices es"
| "dispatch_indices (e # es) = dispatch_indices es"

text \<open>
  For each dispatch of a trace, the events that follow it up to the next dispatch.
\<close>

fun segments :: "'f event list \<Rightarrow> 'f event list list" where
  "segments [] = []"
| "segments (e # es) =
     (if is_Dispatch e then takeWhile (\<lambda>x. \<not> is_Dispatch x) es # segments es
      else segments es)"

text \<open>
  The rule of the dispatch counter, run on a list of cadences from a starting value: the
  counter is incremented, a commit fires when the incremented value is a multiple of the
  cadence, and the counter goes back to zero exactly then. \<open>count_commits\<close> gives the
  incremented value and the decision for each cadence, \<open>counter_after\<close> the value left.
\<close>

fun count_commits :: "uint \<Rightarrow> uint list \<Rightarrow> (uint \<times> bool) list" where
  "count_commits c [] = []"
| "count_commits c (d # ds) =
     (c + 1, (c + 1) mod d = 0) # count_commits (if (c + 1) mod d = 0 then 0 else c + 1) ds"

fun counter_after :: "uint \<Rightarrow> uint list \<Rightarrow> uint" where
  "counter_after c [] = c"
| "counter_after c (d # ds) = counter_after (if (c + 1) mod d = 0 then 0 else c + 1) ds"

text \<open>
  Whether the kernel of a camera can be defined on an instance: whether the instance's
  \<^verbatim>\<open>Li\<close> returns when the kernel's lambda calls it.
\<close>

definition kernel_defined :: "('f, 'si, 'li) progressive_instance \<Rightarrow> 'f camera \<Rightarrow> bool" where
  "kernel_defined inst cam = (case render_kernel inst cam of Inl e \<Rightarrow> False | Inr k \<Rightarrow> True)"

text \<open>The sub-sample counts of a camera's shutter samples, summed as numbers.\<close>

definition total_sub_samples :: "'f camera \<Rightarrow> nat" where
  "total_sub_samples cam = sum_list (map (\<lambda>s. unat (ss_spp s)) (shutter_samples cam))"

text \<open>
  The property that no dispatch comes before the sampler is reset, checked along a trace. The camera in work
  is the one whose film was prepared last; the sampler is ready for it once it has been
  reset with that camera's resolution, the product of the resolution's components and
  the camera's \<^verbatim>\<open>spp\<close>; every dispatch must find the sampler ready.
\<close>

fun reset_before_dispatch :: "'f camera option \<Rightarrow> bool \<Rightarrow> 'f event list \<Rightarrow> bool" where
  "reset_before_dispatch cur armed [] = True"
| "reset_before_dispatch cur armed (FilmPrepare c # es) = reset_before_dispatch (Some c) False es"
| "reset_before_dispatch cur armed (SamplerReset r n spp # es) =
     reset_before_dispatch cur
       (case cur of
          None \<Rightarrow> False
        | Some c \<Rightarrow> r = film_resolution c
            \<and> n = vec_x (film_resolution c) * vec_y (film_resolution c) \<and> spp = cam_spp c)
       es"
| "reset_before_dispatch cur armed (Dispatch i t w r # es) =
     (armed \<and> reset_before_dispatch cur armed es)"
| "reset_before_dispatch cur armed (e # es) = reset_before_dispatch cur armed es"

text \<open>
  The drain loop as the specification words it, for comparison with \<open>drain_display\<close>:
  while a Display exists and reports itself not idle, keep draining it. The loop goes
  on while \<^verbatim>\<open>idle\<close> answers false and ends at the first answer true.
\<close>

partial_function (option) drain_display_as_specified ::
  "env \<Rightarrow> Display option \<Rightarrow> ('f, 'si, 'li) render_state \<Rightarrow> ('f, 'si, 'li) render_state option" where
  "drain_display_as_specified E disp st =
     (case disp of
        None \<Rightarrow> Some st
      | Some d \<Rightarrow>
          (if \<not> display_idle E (idle_polls st)
           then drain_display_as_specified E disp
                  (emit DisplayIdle (st\<lparr>idle_polls := Suc (idle_polls st)\<rparr>))
           else Some (emit DisplayIdle (st\<lparr>idle_polls := Suc (idle_polls st)\<rparr>))))"

section \<open>The dispatch loop, step by step\<close>

text \<open>
  The two nested loops run a flat sequence of steps: advancing the pipeline to a shutter
  time, or dispatching one sub-sample. The definitions below name the parts of one
  iteration; the lemmas relate them to \<open>dispatch_one\<close> and the loops.
\<close>

datatype 'f host_step = Advance 'f | Sample "'f ShutterSample"

fun run_steps ::
  "env \<Rightarrow> ('f, 'si, 'li) progressive_instance \<Rightarrow> 'f camera \<Rightarrow> 'f host_step list
     \<Rightarrow> ('f, 'si, 'li) render_state \<Rightarrow> ('f, 'si, 'li) outcome" where
  "run_steps E inst cam [] st = Inr st"
| "run_steps E inst cam (Advance t # xs) st = run_steps E inst cam xs (emit (PipelineUpdate t) st)"
| "run_steps E inst cam (Sample s # xs) st =
     (case dispatch_one E inst cam s st of
        Inl e \<Rightarrow> Inl e
      | Inr st' \<Rightarrow> run_steps E inst cam xs st')"

definition steps_of :: "'f ShutterSample list \<Rightarrow> 'f host_step list" where
  "steps_of ss =
     concat (map (\<lambda>s. Advance (point_time s) # replicate (unat (ss_spp s)) (Sample s)) ss)"

fun samples_of :: "'f host_step list \<Rightarrow> 'f ShutterSample list" where
  "samples_of [] = []"
| "samples_of (Advance t # xs) = samples_of xs"
| "samples_of (Sample s # xs) = s # samples_of xs"

text \<open>
  The cadence in force when the display is asked for the \<open>k\<close>-th time, whether the commit
  branch is taken from a state, and the events of one iteration after its dispatch.
\<close>

definition cadence_at :: "env \<Rightarrow> ('f, 'si, 'li) progressive_instance \<Rightarrow> nat \<Rightarrow> uint" where
  "cadence_at E inst k =
     (if inst_display inst \<noteq> None \<and> \<not> display_should_close E k
      then ucast (display_interval (inst_integrator inst)) else 32)"

definition fires_at :: "env \<Rightarrow> ('f, 'si, 'li) progressive_instance \<Rightarrow> ('f, 'si, 'li) render_state \<Rightarrow> bool"
  where
  "fires_at E inst st = ((dispatch_count st + 1) mod cadence_at E inst (close_polls st) = 0)"

definition commit_events ::
  "env \<Rightarrow> ('f, 'si, 'li) progressive_instance \<Rightarrow> uint \<Rightarrow> ('f, 'si, 'li) render_state \<Rightarrow> 'f event list"
  where
  "commit_events E inst spp st =
     (case inst_display inst of
        None \<Rightarrow> [DeferredProgress (sample_id st) spp]
      | Some d \<Rightarrow>
          [DisplayUpdate (sample_id st),
           if display_update E (update_polls st) then ProgressUpdate (sample_id st) spp
           else DeferredProgress (sample_id st) spp])"

definition chunk_tail ::
  "env \<Rightarrow> ('f, 'si, 'li) progressive_instance \<Rightarrow> 'f camera \<Rightarrow> ('f, 'si, 'li) render_state \<Rightarrow> 'f event list"
  where
  "chunk_tail E inst cam st =
     (if printer_empty E (printer_polls st) then [] else [PrinterRetrieve])
     @ (if fires_at E inst st
        then commit_events E inst (cam_spp cam) (st\<lparr>sample_id := sample_id st + 1\<rparr>) else [])"

text \<open>What \<open>render_one_camera\<close> does before and up to the start of its loop.\<close>

definition prologue :: "'f camera \<Rightarrow> 'f event list" where
  "prologue cam =
     [SamplerReset (film_resolution cam)
        (vec_x (film_resolution cam) * vec_y (film_resolution cam)) (cam_spp cam),
      PrinterReset, Synchronize, CompileKernel cam, Synchronize, ProgressStart]"

definition loop_entry :: "'f camera \<Rightarrow> ('f, 'si, 'li) render_state \<Rightarrow> ('f, 'si, 'li) render_state" where
  "loop_entry cam st = st\<lparr>trace := trace st @ prologue cam, dispatch_count := 0, sample_id := 0\<rparr>"

text \<open>The state in which \<open>render_one_camera\<close> defines its kernel, after line 68.\<close>

definition kernel_entry :: "'f camera \<Rightarrow> ('f, 'si, 'li) render_state \<Rightarrow> ('f, 'si, 'li) render_state"
  where
  "kernel_entry cam st = st\<lparr>trace := trace st @ take 3 (prologue cam)\<rparr>"

text \<open>
  A state in which the object's pointer to the light-sampler instance is replaced, and
  the same replacement in an outcome.
\<close>

definition set_light_sampler ::
  "'li option \<Rightarrow> ('f, 'si, 'li) render_state \<Rightarrow> ('f, 'si, 'li) render_state" where
  "set_light_sampler x st = st\<lparr>self := (self st)\<lparr>inst_light_sampler := x\<rparr>\<rparr>"

definition map_outcome ::
  "(('f, 'si, 'li) render_state \<Rightarrow> ('f, 'si, 'li) render_state)
     \<Rightarrow> ('f, 'si, 'li) outcome \<Rightarrow> ('f, 'si, 'li) outcome" where
  "map_outcome f r = (case r of Inl (e, st) \<Rightarrow> Inl (e, f st) | Inr st \<Rightarrow> Inr (f st))"

text \<open>Events that are no dispatch, no retrieval and no progress report.\<close>

definition neutral :: "'f event \<Rightarrow> bool" where
  "neutral e = (\<not> is_Dispatch e \<and> e \<noteq> PrinterRetrieve \<and> \<not> is_progress e)"

text \<open>Events that neither start a camera nor reset the sampler.\<close>

fun stable :: "'f event \<Rightarrow> bool" where
  "stable (FilmPrepare c) = False"
| "stable (SamplerReset r n spp) = False"
| "stable e = True"

section \<open>A concrete session\<close>

text \<open>
  A scene whose loaders keep the description they are given and whose nodes always build
  an instance; descriptions of an integrator with given options; an environment whose
  display asks to close from a given query on, whose printer is empty at every even
  query and whose \<^verbatim>\<open>idle\<close> answers true twice; an environment whose display asks to
  close at its second query only; cameras with given sub-sample counts; a
  pipeline of two cameras; an implementation of \<^verbatim>\<open>Li\<close> that returns a colour; the
  instance of a derived class built for the pipeline, and the instance of the base class;
  the state before anything ran, the object being the derived instance with a display
  and the interval 2.
\<close>

definition example_scene :: "(int pipeline, unit, unit) scene" where
  "example_scene =
     \<lparr> load_sampler = (\<lambda>d. \<lparr>node_desc = d, node_build = (\<lambda>p. ())\<rparr>),
       load_light_sampler = (\<lambda>d. \<lparr>node_desc = d, node_build = (\<lambda>p. ())\<rparr>) \<rparr>"

definition example_desc :: "(string \<times> uint) list \<Rightarrow> bool \<Rightarrow> SceneNodeDesc" where
  "example_desc uints with_display =
     SceneNodeDesc INTEGRATOR ''path'' uints [(''display'', with_display)] []"

definition example_env :: "nat \<Rightarrow> env" where
  "example_env closes_at =
     \<lparr> printer_empty = (\<lambda>k. even k),
       display_should_close = (\<lambda>k. closes_at \<le> k),
       display_update = (\<lambda>k. True),
       display_idle = (\<lambda>k. k < 2) \<rparr>"

definition flickering_env :: env where
  "flickering_env =
     \<lparr> printer_empty = (\<lambda>k. True),
       display_should_close = (\<lambda>k. k = 1),
       display_update = (\<lambda>k. True),
       display_idle = (\<lambda>k. False) \<rparr>"

definition example_camera :: "uint list \<Rightarrow> int camera" where
  "example_camera spps =
     \<lparr> cam_spp = sum_list spps,
       cam_file = ''out.exr'',
       film_resolution = make_uint2 4 4,
       shutter_samples = map (\<lambda>n. \<lparr>point_time = 0, point_weight = 1, ss_spp = n\<rparr>) spps \<rparr>"

definition example_pipeline :: "bool \<Rightarrow> int pipeline" where
  "example_pipeline lights =
     \<lparr>has_lighting = lights, cameras = [example_camera [4], example_camera [2, 3]]\<rparr>"

definition example_Li :: "int camera \<Rightarrow> Expr \<Rightarrow> Expr \<Rightarrow> Expr \<Rightarrow> error + Expr" where
  "example_Li cam frame_index pixel_id time = Inr (Apply ''radiance'' [frame_index, pixel_id, time])"

definition example_instance :: "uint \<Rightarrow> bool \<Rightarrow> (int, unit, unit) progressive_instance" where
  "example_instance interval with_display =
     derived_instance example_Li (example_pipeline True)
       (ProgressiveIntegrator example_scene
          (example_desc [(''display_interval'', interval)] with_display))"

definition base_instance :: "uint \<Rightarrow> bool \<Rightarrow> (int, unit, unit) progressive_instance" where
  "base_instance interval with_display =
     ProgressiveIntegrator_Instance (example_pipeline True)
       (ProgressiveIntegrator example_scene
          (example_desc [(''display_interval'', interval)] with_display))"

definition initial_state :: "(int, unit, unit) render_state" where
  "initial_state =
     \<lparr> trace = [], printer_polls = 0, close_polls = 0, update_polls = 0, idle_polls = 0,
       dispatch_count = 0, sample_id = 0, iterations = [], self = example_instance 2 True \<rparr>"
section \<open>Configuration: defaults and the display interval\<close>

lemma clamp_unat:
  "unat (clamp v 1 65535) = (if unat v < 1 then 1 else if 65535 < unat v then 65535 else unat v)"
  by (simp add: clamp_def word_less_nat_alt)

lemma clamp_range: "1 \<le> unat (clamp v 1 65535) \<and> unat (clamp v 1 65535) \<le> 65535"
  by (simp add: clamp_unat)

lemma ucast_clamp: "unat (ucast (clamp v 1 65535) :: uint16_t) = unat (clamp v 1 65535)"
proof -
  have "unat (clamp v 1 65535) < 2 ^ 16"
    using clamp_range [of v] by simp
  then show ?thesis
    by (simp add: unsigned_ucast_eq take_bit_nat_eq_self)
qed

lemma display_interval_range:
  "1 \<le> unat (display_interval (ProgressiveIntegrator scn desc))
   \<and> unat (display_interval (ProgressiveIntegrator scn desc)) \<le> 65535"
  using clamp_range by (simp add: ProgressiveIntegrator_def ucast_clamp)

text \<open>
  C4. The constructor of the progressive integrator is a total function: it returns a
  node for every description and reports no error. The interval it stores is the
  configured value clamped to the range from 1 to 65535: a value below 1 becomes 1, a
  value above 65535 becomes 65535, any other value is kept, and an absent option gives 1.
\<close>

theorem display_interval_clamped:
  "unat (display_interval (ProgressiveIntegrator scn desc)) =
     (case map_of (uint_properties desc) ''display_interval'' of
        None \<Rightarrow> 1
      | Some v \<Rightarrow> if unat v < 1 then 1 else if 65535 < unat v then 65535 else unat v)"
  by (simp add: ProgressiveIntegrator_def property_uint_or_default_def ucast_clamp clamp_unat
      split: option.split)

text \<open>The inputs 0, 100000, 5 and no input at all.\<close>

theorem display_interval_clamped_witness:
  "unat (display_interval (ProgressiveIntegrator example_scene
      (example_desc [(''display_interval'', 0)] False))) = 1
   \<and> unat (display_interval (ProgressiveIntegrator example_scene
      (example_desc [(''display_interval'', 100000)] False))) = 65535
   \<and> unat (display_interval (ProgressiveIntegrator example_scene
      (example_desc [(''display_interval'', 5)] False))) = 5
   \<and> unat (display_interval (ProgressiveIntegrator example_scene
      (example_desc [] False))) = 1"
  using
    display_interval_clamped
      [of example_scene "example_desc [(''display_interval'', 0)] False"]
    display_interval_clamped
      [of example_scene "example_desc [(''display_interval'', 100000)] False"]
    display_interval_clamped
      [of example_scene "example_desc [(''display_interval'', 5)] False"]
    display_interval_clamped [of example_scene "example_desc [] False"]
  by (simp add: example_desc_def)

text \<open>
  C9. The integrator loads the sampler description given under \<^verbatim>\<open>sampler\<close>, and the
  default description of an \<^verbatim>\<open>independent\<close> sampler when the option is absent; it loads
  the light-sampler description given under \<^verbatim>\<open>light_sampler\<close>, and the default
  description of a \<^verbatim>\<open>uniform\<close> light sampler when that option is absent.
\<close>

theorem integrator_defaults:
  "node_sampler (Integrator scn desc) =
     load_sampler scn
       (case map_of (node_properties desc) ''sampler'' of
          None \<Rightarrow> SceneNodeDesc SAMPLER ''independent'' [] [] []
        | Some d \<Rightarrow> d)
   \<and> node_light_sampler (Integrator scn desc) =
     load_light_sampler scn
       (case map_of (node_properties desc) ''light_sampler'' of
          None \<Rightarrow> SceneNodeDesc LIGHT_SAMPLER ''uniform'' [] [] []
        | Some d \<Rightarrow> d)"
  by (simp add: Integrator_def property_node_or_default_def shared_default_sampler_def
      shared_default_light_sampler_def)

section \<open>The sampling extension point\<close>

text \<open>
  C5. Whatever the camera, the frame index, the pixel and the time, the base
  implementation of \<^verbatim>\<open>Li\<close> ends in the fatal error that names the function and the place
  of the call, and it returns no colour.
\<close>

theorem Li_not_implemented:
  "(Li cam frame_index pixel_id time :: error + 'c) =
      Inl (Fatal ''ProgressiveIntegrator::Li() is not implemented.''
             ''src/base/integrator.cpp'' 129)
   \<and> (\<forall>c :: 'c. Li cam frame_index pixel_id time \<noteq> Inr c)"
  by (simp add: Li_def)

section \<open>One iteration of the dispatch loop\<close>

lemma dpc_fst: "fst (dispatches_per_commit E inst st) = cadence_at E inst (close_polls st)"
  by (simp add: dispatches_per_commit_def cadence_at_def Let_def split: option.split)

lemma dpc_snd: "snd (dispatches_per_commit E inst st) =
   st\<lparr>close_polls := close_polls st + (if inst_display inst = None then 0 else 1)\<rparr>"
  by (simp add: dispatches_per_commit_def Let_def split: option.split)

lemma commit_eq:
  "commit E inst spp st =
     st\<lparr>dispatch_count := 0,
        update_polls := update_polls st + (if inst_display inst = None then 0 else 1),
        trace := trace st @ commit_events E inst spp st\<rparr>"
  by (simp add: commit_def commit_events_def emit_def Let_def split: option.split)

lemma retrieve_printer_eq:
  "retrieve_printer E st =
     st\<lparr>printer_polls := Suc (printer_polls st),
        trace := trace st @ (if printer_empty E (printer_polls st) then [] else [PrinterRetrieve])\<rparr>"
  by (simp add: retrieve_printer_def emit_def Let_def)

lemma dispatch_one_eq:
  assumes "cadence_at E inst (close_polls st) \<noteq> 0"
  shows "dispatch_one E inst cam s st =
     Inr (st\<lparr>trace := trace st
                @ Dispatch (sample_id st) (point_time s) (point_weight s) (film_resolution cam)
                  # chunk_tail E inst cam st,
             sample_id := sample_id st + 1,
             printer_polls := Suc (printer_polls st),
             close_polls := close_polls st + (if inst_display inst = None then 0 else 1),
             update_polls :=
               update_polls st + (if fires_at E inst st \<and> inst_display inst \<noteq> None then 1 else 0),
             dispatch_count := (if fires_at E inst st then 0 else dispatch_count st + 1),
             iterations := iterations st @
               [\<lparr>it_sample_id = sample_id st, it_count = dispatch_count st + 1,
                 it_cadence = cadence_at E inst (close_polls st),
                 it_commit = fires_at E inst st\<rparr>]\<rparr>)"
  using assms
  by (simp add: dispatch_one_def Let_def split_beta dpc_fst dpc_snd commit_eq
      retrieve_printer_eq emit_def commit_events_def fires_at_def chunk_tail_def
      split: option.split)

lemma cadence_at_nonzero:
  assumes "display_interval (inst_integrator inst) \<noteq> 0"
  shows "cadence_at E inst k \<noteq> 0"
proof -
  have "unat (ucast (display_interval (inst_integrator inst)) :: uint)
      = unat (display_interval (inst_integrator inst))"
  proof -
    have "unat (display_interval (inst_integrator inst)) < 2 ^ 16"
      using unsigned_less [of "display_interval (inst_integrator inst)"] by simp
    then have "unat (display_interval (inst_integrator inst)) < 2 ^ 32"
      by simp
    then show ?thesis
      by (simp add: unsigned_ucast_eq take_bit_nat_eq_self)
  qed
  moreover have "unat (display_interval (inst_integrator inst)) \<noteq> 0"
    using assms by (simp add: unsigned_eq_0_iff)
  ultimately have "(ucast (display_interval (inst_integrator inst)) :: uint) \<noteq> 0"
    by (metis unsigned_0)
  then show ?thesis
    by (simp add: cadence_at_def)
qed

lemma run_steps_append:
  "run_steps E inst cam (xs @ ys) st =
     (case run_steps E inst cam xs st of Inl e \<Rightarrow> Inl e | Inr st' \<Rightarrow> run_steps E inst cam ys st')"
  by (induction E inst cam xs st rule: run_steps.induct) (auto split: sum.splits)

lemma unat_succ_less:
  fixes i n :: uint
  assumes "i < n"
  shows "unat (i + 1) = Suc (unat i)"
proof -
  have "unat i < unat n"
    using assms by (simp add: word_less_nat_alt)
  moreover have "unat n < 2 ^ 32"
    using unsigned_less [of n] by simp
  ultimately have "unat i + 1 < 2 ^ 32"
    by linarith
  then show ?thesis
    by (simp add: unat_word_ariths)
qed

lemma sub_samples_run_steps:
  "sub_samples E inst cam s i st =
     run_steps E inst cam (replicate (unat (ss_spp s) - unat i) (Sample s)) st"
proof (induction E inst cam s i st rule: sub_samples.induct)
  case (1 E inst cam s i st)
  show ?case
  proof (cases "i < ss_spp s")
    case True
    then have lt: "unat i < unat (ss_spp s)"
      by (simp add: word_less_nat_alt)
    have suc: "unat (i + 1) = Suc (unat i)"
      using True by (rule unat_succ_less)
    have rep: "replicate (unat (ss_spp s) - unat i) (Sample s)
        = Sample s # replicate (unat (ss_spp s) - unat (i + 1)) (Sample s)"
      using lt suc by (simp add: Suc_diff_Suc flip: replicate_Suc)
    show ?thesis
    proof (cases "dispatch_one E inst cam s st")
      case (Inl e)
      with True rep show ?thesis
        by (simp add: sub_samples.simps [of E inst cam s i st])
    next
      case (Inr st')
      with True rep "1.IH" [OF True Inr] show ?thesis
        by (simp add: sub_samples.simps [of E inst cam s i st])
    qed
  next
    case False
    then have "unat (ss_spp s) - unat i = 0"
      by (simp add: word_less_nat_alt)
    with False show ?thesis
      by (simp add: sub_samples.simps [of E inst cam s i st])
  qed
qed

lemma shutter_loop_run_steps:
  "shutter_loop E inst cam ss st = run_steps E inst cam (steps_of ss) st"
proof (induction ss arbitrary: st)
  case Nil
  show ?case by (simp add: steps_of_def)
next
  case (Cons s ss)
  have "steps_of (s # ss)
      = Advance (point_time s) # replicate (unat (ss_spp s)) (Sample s) @ steps_of ss"
    by (simp add: steps_of_def)
  then show ?case
    using Cons.IH
    by (simp add: run_steps_append sub_samples_run_steps split: sum.splits)
qed

lemma samples_of_append: "samples_of (xs @ ys) = samples_of xs @ samples_of ys"
  by (induction xs rule: samples_of.induct) auto

lemma samples_of_replicate: "samples_of (replicate n (Sample s)) = replicate n s"
  by (induction n) auto

lemma samples_of_steps_of:
  "samples_of (steps_of ss) = concat (map (\<lambda>s. replicate (unat (ss_spp s)) s) ss)"
  by (induction ss) (auto simp: steps_of_def samples_of_append samples_of_replicate)

lemma length_samples_of_steps_of:
  "length (samples_of (steps_of ss)) = sum_list (map (\<lambda>s. unat (ss_spp s)) ss)"
  by (induction ss) (auto simp: steps_of_def samples_of_append samples_of_replicate)

lemma dispatch_one_fields:
  assumes wf: "display_interval (inst_integrator inst) \<noteq> 0"
    and step: "dispatch_one E inst cam s st = Inr st'"
  shows "trace st' = trace st
           @ Dispatch (sample_id st) (point_time s) (point_weight s) (film_resolution cam)
             # chunk_tail E inst cam st"
    and "sample_id st' = sample_id st + 1"
    and "printer_polls st' = Suc (printer_polls st)"
    and "close_polls st' = close_polls st + (if inst_display inst = None then 0 else 1)"
    and "update_polls st' =
           update_polls st + (if fires_at E inst st \<and> inst_display inst \<noteq> None then 1 else 0)"
    and "idle_polls st' = idle_polls st"
    and "dispatch_count st' = (if fires_at E inst st then 0 else dispatch_count st + 1)"
    and "iterations st' = iterations st @
           [\<lparr>it_sample_id = sample_id st, it_count = dispatch_count st + 1,
             it_cadence = cadence_at E inst (close_polls st), it_commit = fires_at E inst st\<rparr>]"
  using step dispatch_one_eq [OF cadence_at_nonzero [OF wf], where E = E and st = st and cam = cam and s = s]
  by auto

lemma dispatch_one_succeeds:
  assumes wf: "display_interval (inst_integrator inst) \<noteq> 0"
  shows "\<exists>st'. dispatch_one E inst cam s st = Inr st'"
  using dispatch_one_eq [OF cadence_at_nonzero [OF wf], where E = E and st = st and cam = cam and s = s]
  by simp

lemma run_steps_succeeds:
  assumes wf: "display_interval (inst_integrator inst) \<noteq> 0"
  shows "\<exists>st'. run_steps E inst cam xs st = Inr st'"
proof (induction xs arbitrary: st)
  case Nil
  show ?case by simp
next
  case (Cons x xs)
  show ?case
  proof (cases x)
    case (Advance t)
    with Cons.IH show ?thesis by simp
  next
    case (Sample s)
    obtain st1 where "dispatch_one E inst cam s st = Inr st1"
      using dispatch_one_succeeds [OF wf] by blast
    with Sample Cons.IH [of st1] show ?thesis by simp
  qed
qed

lemma run_steps_cases:
  assumes "run_steps E inst cam (x # xs) st = Inr st'"
  obtains (Advance) t where "x = Advance t"
      "run_steps E inst cam xs (emit (PipelineUpdate t) st) = Inr st'"
    | (Sample) s st1 where "x = Sample s" "dispatch_one E inst cam s st = Inr st1"
      "run_steps E inst cam xs st1 = Inr st'"
  using assms by (cases x) (auto split: sum.splits)

lemma new_events_trans:
  assumes "trace st1 = trace st @ a" and "trace st' = trace st1 @ new_events st1 st'"
  shows "trace st' = trace st @ new_events st st'" and "new_events st st' = a @ new_events st1 st'"
proof -
  define b where "b = new_events st1 st'"
  have whole: "trace st' = trace st @ a @ b"
    using assms by (simp add: b_def)
  then have "new_events st st' = a @ b"
    by (simp add: new_events_def)
  with whole show "trace st' = trace st @ new_events st st'"
    by simp
  from \<open>new_events st st' = a @ b\<close> show "new_events st st' = a @ new_events st1 st'"
    by (simp add: b_def)
qed

lemma run_steps_trace:
  assumes wf: "display_interval (inst_integrator inst) \<noteq> 0"
    and run: "run_steps E inst cam xs st = Inr st'"
  shows "trace st' = trace st @ new_events st st'"
  using run
proof (induction xs arbitrary: st)
  case Nil
  then show ?case by (simp add: new_events_def)
next
  case (Cons x xs)
  from Cons.prems show ?case
  proof (cases rule: run_steps_cases)
    case (Advance t)
    have "trace (emit (PipelineUpdate t) st) = trace st @ [PipelineUpdate t]"
      by (simp add: emit_def)
    then show ?thesis
      using Cons.IH [OF Advance(2)] by (rule new_events_trans)
  next
    case (Sample s st1)
    show ?thesis
      using dispatch_one_fields(1) [OF wf Sample(2)] Cons.IH [OF Sample(3)]
      by (rule new_events_trans)
  qed
qed

lemma run_steps_Advance_events:
  assumes wf: "display_interval (inst_integrator inst) \<noteq> 0"
    and run: "run_steps E inst cam xs (emit (PipelineUpdate t) st) = Inr st'"
  shows "new_events st st' = PipelineUpdate t # new_events (emit (PipelineUpdate t) st) st'"
proof -
  have "trace (emit (PipelineUpdate t) st) = trace st @ [PipelineUpdate t]"
    by (simp add: emit_def)
  from new_events_trans(2) [OF this run_steps_trace [OF wf run]] show ?thesis
    by simp
qed

lemma run_steps_Sample_events:
  assumes wf: "display_interval (inst_integrator inst) \<noteq> 0"
    and step: "dispatch_one E inst cam s st = Inr st1"
    and run: "run_steps E inst cam xs st1 = Inr st'"
  shows "new_events st st' =
     Dispatch (sample_id st) (point_time s) (point_weight s) (film_resolution cam)
       # chunk_tail E inst cam st @ new_events st1 st'"
  using new_events_trans(2) [OF dispatch_one_fields(1) [OF wf step] run_steps_trace [OF wf run]]
  by simp

lemma run_steps_iterations:
  assumes wf: "display_interval (inst_integrator inst) \<noteq> 0"
    and run: "run_steps E inst cam xs st = Inr st'"
  shows "iterations st' = iterations st @ new_iterations st st'"
  using run
proof (induction xs arbitrary: st)
  case Nil
  then show ?case by (simp add: new_iterations_def)
next
  case (Cons x xs)
  from Cons.prems show ?case
  proof (cases rule: run_steps_cases)
    case (Advance t)
    from Cons.IH [OF Advance(2)] show ?thesis
      by (simp add: emit_def new_iterations_def)
  next
    case (Sample s st1)
    from Cons.IH [OF Sample(3)] dispatch_one_fields(8) [OF wf Sample(2)]
    obtain b where "iterations st' = iterations st @ b"
      by simp
    then show ?thesis
      by (simp add: new_iterations_def)
  qed
qed

lemma run_steps_Advance_iterations:
  "new_iterations st st' = new_iterations (emit (PipelineUpdate t) st) st'"
  by (simp add: new_iterations_def emit_def)

lemma run_steps_Sample_iterations:
  assumes wf: "display_interval (inst_integrator inst) \<noteq> 0"
    and step: "dispatch_one E inst cam s st = Inr st1"
    and run: "run_steps E inst cam xs st1 = Inr st'"
  shows "new_iterations st st' =
     \<lparr>it_sample_id = sample_id st, it_count = dispatch_count st + 1,
       it_cadence = cadence_at E inst (close_polls st), it_commit = fires_at E inst st\<rparr>
     # new_iterations st1 st'"
proof -
  define b where "b = new_iterations st1 st'"
  have "iterations st' = iterations st1 @ b"
    using run_steps_iterations [OF wf run] by (simp add: b_def)
  then have "iterations st' = iterations st @
      \<lparr>it_sample_id = sample_id st, it_count = dispatch_count st + 1,
       it_cadence = cadence_at E inst (close_polls st), it_commit = fires_at E inst st\<rparr> # b"
    using dispatch_one_fields(8) [OF wf step] by simp
  then have "new_iterations st st' =
      \<lparr>it_sample_id = sample_id st, it_count = dispatch_count st + 1,
       it_cadence = cadence_at E inst (close_polls st), it_commit = fires_at E inst st\<rparr> # b"
    by (simp add: new_iterations_def)
  then show ?thesis
    by (simp only: b_def)
qed

lemma map_upt_Suc_shift: "map f [0..<Suc n] = f 0 # map (\<lambda>k. f (Suc k)) [0..<n]"
  by (simp add: map_upt_Suc del: upt_Suc)

lemma not_Dispatch_chunk_tail: "e \<in> set (chunk_tail E inst cam st) \<Longrightarrow> \<not> is_Dispatch e"
  by (auto simp: chunk_tail_def commit_events_def split: if_splits option.splits)

lemma filter_Dispatch_chunk_tail: "filter is_Dispatch (chunk_tail E inst cam st) = []"
  by (auto simp: filter_empty_conv dest: not_Dispatch_chunk_tail)

lemma run_steps_dispatches:
  assumes wf: "display_interval (inst_integrator inst) \<noteq> 0"
    and run: "run_steps E inst cam xs st = Inr st'"
  shows "filter is_Dispatch (new_events st st') =
       map (\<lambda>(k, s). Dispatch (sample_id st + of_nat k) (point_time s) (point_weight s)
                       (film_resolution cam))
         (enumerate 0 (samples_of xs))
     \<and> sample_id st' = sample_id st + of_nat (length (samples_of xs))"
  using run
proof (induction xs arbitrary: st)
  case Nil
  then show ?case by (simp add: new_events_def)
next
  case (Cons x xs)
  from Cons.prems show ?case
  proof (cases rule: run_steps_cases)
    case (Advance t)
    from Cons.IH [OF Advance(2)] run_steps_Advance_events [OF wf Advance(2)] Advance(1)
    show ?thesis
      by (simp add: emit_def)
  next
    case (Sample s st1)
    have sid: "sample_id st1 = sample_id st + 1"
      by (rule dispatch_one_fields(2) [OF wf Sample(2)])
    have shift: "map (\<lambda>(k, s). Dispatch (sample_id st + of_nat k) (point_time s) (point_weight s)
                       (film_resolution cam)) (enumerate (Suc 0) (samples_of xs))
        = map (\<lambda>(k, s). Dispatch (sample_id st1 + of_nat k) (point_time s) (point_weight s)
                       (film_resolution cam)) (enumerate 0 (samples_of xs))"
      by (simp add: enumerate_Suc_eq [of 0] sid split_beta add.assoc)
    from Cons.IH [OF Sample(3)] run_steps_Sample_events [OF wf Sample(2,3)] Sample(1) shift
    show ?thesis
      by (simp add: filter_Dispatch_chunk_tail sid add.assoc)
  qed
qed

lemma run_steps_cadences:
  assumes wf: "display_interval (inst_integrator inst) \<noteq> 0"
    and run: "run_steps E inst cam xs st = Inr st'"
  shows "map it_cadence (new_iterations st st') =
       map (\<lambda>k. cadence_at E inst (close_polls st + k)) [0..<length (samples_of xs)]
     \<and> close_polls st' =
         close_polls st + (if inst_display inst = None then 0 else length (samples_of xs))"
  using run
proof (induction xs arbitrary: st)
  case Nil
  then show ?case by (simp add: new_iterations_def)
next
  case (Cons x xs)
  from Cons.prems show ?case
  proof (cases rule: run_steps_cases)
    case (Advance t)
    from Cons.IH [OF Advance(2)] Advance(1) show ?thesis
      by (simp add: run_steps_Advance_iterations [of st st' t] emit_def)
  next
    case (Sample s st1)
    have polls: "close_polls st1 = close_polls st + (if inst_display inst = None then 0 else 1)"
      by (rule dispatch_one_fields(4) [OF wf Sample(2)])
    have indep: "cadence_at E inst k = 32" if "inst_display inst = None" for k
      using that by (simp add: cadence_at_def)
    from Cons.IH [OF Sample(3)] run_steps_Sample_iterations [OF wf Sample(2,3)] Sample(1)
    show ?thesis
      by (simp add: polls map_upt_Suc_shift indep del: upt_Suc)
  qed
qed

section \<open>What follows each dispatch\<close>

lemma neutral_PipelineUpdate: "neutral (PipelineUpdate t)"
  by (simp add: neutral_def)

lemma neutral_not_Dispatch: "neutral e \<Longrightarrow> \<not> is_Dispatch e"
  by (simp add: neutral_def)

lemma neutral_not_progress: "neutral e \<Longrightarrow> \<not> is_progress e"
  by (simp add: neutral_def)

lemma neutral_not_retrieve: "neutral e \<Longrightarrow> e \<noteq> PrinterRetrieve"
  by (simp add: neutral_def)

lemma segments_skip:
  assumes "\<forall>e \<in> set xs. \<not> is_Dispatch e"
  shows "segments (xs @ ys) = segments ys"
  using assms by (induction xs) auto

lemma takeWhile_skip:
  assumes "\<forall>e \<in> set xs. \<not> is_Dispatch e"
  shows "takeWhile (\<lambda>x. \<not> is_Dispatch x) (xs @ ys) = xs @ takeWhile (\<lambda>x. \<not> is_Dispatch x) ys"
  using assms by (induction xs) auto

lemma segments_chunk:
  "segments (Dispatch i t w r # chunk_tail E inst cam st @ ys) =
     (chunk_tail E inst cam st @ takeWhile (\<lambda>x. \<not> is_Dispatch x) ys) # segments ys"
  using not_Dispatch_chunk_tail [of _ E inst cam st]
  by (simp add: segments_skip takeWhile_skip)

lemma run_steps_head_neutral:
  assumes wf: "display_interval (inst_integrator inst) \<noteq> 0"
    and run: "run_steps E inst cam xs st = Inr st'"
    and sfx: "\<forall>e \<in> set sfx. neutral e"
  shows "\<forall>e \<in> set (takeWhile (\<lambda>x. \<not> is_Dispatch x) (new_events st st' @ sfx)). neutral e"
  using run
proof (induction xs arbitrary: st)
  case Nil
  then have "new_events st st' = []"
    by (simp add: new_events_def)
  with sfx show ?case
    by (auto dest: set_takeWhileD)
next
  case (Cons x xs)
  from Cons.prems show ?case
  proof (cases rule: run_steps_cases)
    case (Advance t)
    from Cons.IH [OF Advance(2)] show ?thesis
      by (simp add: run_steps_Advance_events [OF wf Advance(2)] neutral_PipelineUpdate)
  next
    case (Sample s st1)
    show ?thesis
      by (simp add: run_steps_Sample_events [OF wf Sample(2,3)])
  qed
qed

lemma retrieved_chunk:
  assumes "\<forall>e \<in> set ns. neutral e"
  shows "(take 1 (chunk_tail E inst cam st @ ns) = [PrinterRetrieve])
     = (\<not> printer_empty E (printer_polls st))"
proof (cases "printer_empty E (printer_polls st)")
  case False
  then show ?thesis by (simp add: chunk_tail_def)
next
  case True
  show ?thesis
  proof (cases "fires_at E inst st")
    case fires: True
    with True show ?thesis
      by (simp add: chunk_tail_def commit_events_def split: option.split)
  next
    case False
    with True assms show ?thesis
      by (cases ns) (auto simp: chunk_tail_def dest: neutral_not_retrieve)
  qed
qed

lemma committed_chunk:
  assumes "\<forall>e \<in> set ns. neutral e"
  shows "list_ex is_progress (chunk_tail E inst cam st @ ns) = fires_at E inst st"
proof -
  have "\<not> list_ex is_progress ns"
    using assms by (auto simp: list_ex_iff dest: neutral_not_progress)
  then show ?thesis
    by (simp add: chunk_tail_def commit_events_def split: option.split)
qed

lemma segments_neutral:
  assumes "\<forall>e \<in> set sfx. neutral e"
  shows "segments sfx = []"
proof -
  from assms have "\<forall>e \<in> set sfx. \<not> is_Dispatch e"
    by (auto dest: neutral_not_Dispatch)
  from segments_skip [OF this, of "[]"] show ?thesis
    by simp
qed

lemma run_steps_Sample_segments:
  assumes wf: "display_interval (inst_integrator inst) \<noteq> 0"
    and step: "dispatch_one E inst cam s st = Inr st1"
    and run: "run_steps E inst cam xs st1 = Inr st'"
  shows "segments (new_events st st' @ sfx) =
     (chunk_tail E inst cam st @ takeWhile (\<lambda>x. \<not> is_Dispatch x) (new_events st1 st' @ sfx))
       # segments (new_events st1 st' @ sfx)"
proof -
  have "new_events st st' @ sfx =
     Dispatch (sample_id st) (point_time s) (point_weight s) (film_resolution cam)
       # chunk_tail E inst cam st @ (new_events st1 st' @ sfx)"
    by (simp add: run_steps_Sample_events [OF wf step run])
  then show ?thesis
    by (simp only: segments_chunk)
qed

lemma run_steps_Advance_segments:
  assumes wf: "display_interval (inst_integrator inst) \<noteq> 0"
    and run: "run_steps E inst cam xs (emit (PipelineUpdate t) st) = Inr st'"
  shows "segments (new_events st st' @ sfx) =
     segments (new_events (emit (PipelineUpdate t) st) st' @ sfx)"
  by (simp add: run_steps_Advance_events [OF wf run])

lemma run_steps_retrieves:
  assumes wf: "display_interval (inst_integrator inst) \<noteq> 0"
    and run: "run_steps E inst cam xs st = Inr st'"
    and sfx: "\<forall>e \<in> set sfx. neutral e"
  shows "map (\<lambda>seg. take 1 seg = [PrinterRetrieve]) (segments (new_events st st' @ sfx)) =
       map (\<lambda>k. \<not> printer_empty E (printer_polls st + k)) [0..<length (samples_of xs)]"
  using run
proof (induction xs arbitrary: st)
  case Nil
  then have "new_events st st' = []"
    by (simp add: new_events_def)
  with segments_neutral [OF sfx] show ?case
    by simp
next
  case (Cons x xs)
  from Cons.prems show ?case
  proof (cases rule: run_steps_cases)
    case (Advance t)
    from Cons.IH [OF Advance(2)] Advance(1) show ?thesis
      by (simp add: run_steps_Advance_segments [OF wf Advance(2)] emit_def)
  next
    case (Sample s st1)
    have polls: "printer_polls st1 = Suc (printer_polls st)"
      by (rule dispatch_one_fields(3) [OF wf Sample(2)])
    have head: "\<forall>e \<in> set (takeWhile (\<lambda>x. \<not> is_Dispatch x) (new_events st1 st' @ sfx)). neutral e"
      by (rule run_steps_head_neutral [OF wf Sample(3) sfx])
    have "map (\<lambda>seg. take 1 seg = [PrinterRetrieve]) (segments (new_events st st' @ sfx))
        = (\<not> printer_empty E (printer_polls st))
          # map (\<lambda>seg. take 1 seg = [PrinterRetrieve]) (segments (new_events st1 st' @ sfx))"
      by (simp only: run_steps_Sample_segments [OF wf Sample(2,3)] list.map
          retrieved_chunk [OF head])
    also have "\<dots> = (\<not> printer_empty E (printer_polls st))
          # map (\<lambda>k. \<not> printer_empty E (printer_polls st + Suc k)) [0..<length (samples_of xs)]"
      using Cons.IH [OF Sample(3)] by (simp add: polls)
    also have "\<dots> = map (\<lambda>k. \<not> printer_empty E (printer_polls st + k))
        [0..<Suc (length (samples_of xs))]"
      by (simp only: map_upt_Suc_shift [where f = "\<lambda>k. \<not> printer_empty E (printer_polls st + k)"]
          add_0_right)
    finally show ?thesis
      using Sample(1) by simp
  qed
qed

lemma count_retrieves_chunk:
  "length (filter (\<lambda>e. e = PrinterRetrieve) (chunk_tail E inst cam st))
     = (if printer_empty E (printer_polls st) then 0 else 1)"
  by (simp add: chunk_tail_def commit_events_def split: option.split)

lemma run_steps_retrieve_count:
  assumes wf: "display_interval (inst_integrator inst) \<noteq> 0"
    and run: "run_steps E inst cam xs st = Inr st'"
  shows "length (filter (\<lambda>e. e = PrinterRetrieve) (new_events st st')) =
       length (filter (\<lambda>b. b)
         (map (\<lambda>k. \<not> printer_empty E (printer_polls st + k)) [0..<length (samples_of xs)]))
     \<and> printer_polls st' = printer_polls st + length (samples_of xs)"
  using run
proof (induction xs arbitrary: st)
  case Nil
  then show ?case
    by (simp add: new_events_def)
next
  case (Cons x xs)
  from Cons.prems show ?case
  proof (cases rule: run_steps_cases)
    case (Advance t)
    from Cons.IH [OF Advance(2)] Advance(1) show ?thesis
      by (simp add: run_steps_Advance_events [OF wf Advance(2)] emit_def)
  next
    case (Sample s st1)
    have polls: "printer_polls st1 = Suc (printer_polls st)"
      by (rule dispatch_one_fields(3) [OF wf Sample(2)])
    have shift: "map (\<lambda>k. \<not> printer_empty E (printer_polls st + k))
          [0..<Suc (length (samples_of xs))]
        = (\<not> printer_empty E (printer_polls st))
          # map (\<lambda>k. \<not> printer_empty E (printer_polls st1 + k)) [0..<length (samples_of xs)]"
      by (simp only: map_upt_Suc_shift [where f = "\<lambda>k. \<not> printer_empty E (printer_polls st + k)"]
          add_0_right polls add_Suc_right add_Suc)
    from Cons.IH [OF Sample(3)] have
      "length (filter (\<lambda>e. e = PrinterRetrieve) (new_events st st'))
        = (if printer_empty E (printer_polls st) then 0 else 1)
          + length (filter (\<lambda>b. b)
              (map (\<lambda>k. \<not> printer_empty E (printer_polls st1 + k)) [0..<length (samples_of xs)]))"
      by (simp add: run_steps_Sample_events [OF wf Sample(2,3)] count_retrieves_chunk)
    moreover from Cons.IH [OF Sample(3)] have
      "printer_polls st' = printer_polls st + Suc (length (samples_of xs))"
      by (simp add: polls)
    ultimately have "length (filter (\<lambda>e. e = PrinterRetrieve) (new_events st st')) =
        length (filter (\<lambda>b. b)
          (map (\<lambda>k. \<not> printer_empty E (printer_polls st + k))
             [0..<Suc (length (samples_of xs))]))
      \<and> printer_polls st' = printer_polls st + Suc (length (samples_of xs))"
      by (simp only: shift) simp
    then show ?thesis
      by (simp only: Sample(1) samples_of.simps list.size add_Suc_right add_0_right)
  qed
qed

lemma run_steps_counts:
  assumes wf: "display_interval (inst_integrator inst) \<noteq> 0"
    and run: "run_steps E inst cam xs st = Inr st'"
  shows "map (\<lambda>i. (it_count i, it_commit i)) (new_iterations st st') =
       count_commits (dispatch_count st) (map it_cadence (new_iterations st st'))
     \<and> dispatch_count st' =
       counter_after (dispatch_count st) (map it_cadence (new_iterations st st'))"
  using run
proof (induction xs arbitrary: st)
  case Nil
  then show ?case
    by (simp add: new_iterations_def)
next
  case (Cons x xs)
  from Cons.prems show ?case
  proof (cases rule: run_steps_cases)
    case (Advance t)
    from Cons.IH [OF Advance(2)] show ?thesis
      by (simp add: run_steps_Advance_iterations [of st st' t] emit_def)
  next
    case (Sample s st1)
    have count: "dispatch_count st1 =
        (if (dispatch_count st + 1) mod cadence_at E inst (close_polls st) = 0 then 0
         else dispatch_count st + 1)"
      using dispatch_one_fields(7) [OF wf Sample(2)] by (simp only: fires_at_def)
    let ?c = "cadence_at E inst (close_polls st)"
    let ?n = "dispatch_count st + 1"
    have its: "new_iterations st st' =
        \<lparr>it_sample_id = sample_id st, it_count = ?n, it_cadence = ?c,
          it_commit = (?n mod ?c = 0)\<rparr> # new_iterations st1 st'"
      using run_steps_Sample_iterations [OF wf Sample(2,3)] by (simp only: fires_at_def)
    have "map (\<lambda>i. (it_count i, it_commit i)) (new_iterations st st')
        = (?n, ?n mod ?c = 0) # map (\<lambda>i. (it_count i, it_commit i)) (new_iterations st1 st')"
      by (simp only: its list.map iteration.select_convs)
    also have "\<dots> = (?n, ?n mod ?c = 0)
        # count_commits (if ?n mod ?c = 0 then 0 else ?n) (map it_cadence (new_iterations st1 st'))"
      using Cons.IH [OF Sample(3)] by (simp only: count)
    also have "\<dots> = count_commits (dispatch_count st) (?c # map it_cadence (new_iterations st1 st'))"
      by (simp only: count_commits.simps)
    also have "?c # map it_cadence (new_iterations st1 st') = map it_cadence (new_iterations st st')"
      by (simp only: its list.map iteration.select_convs)
    finally have one: "map (\<lambda>i. (it_count i, it_commit i)) (new_iterations st st') =
       count_commits (dispatch_count st) (map it_cadence (new_iterations st st'))" .
    have "dispatch_count st' =
        counter_after (if ?n mod ?c = 0 then 0 else ?n) (map it_cadence (new_iterations st1 st'))"
      using Cons.IH [OF Sample(3)] by (simp only: count)
    also have "\<dots> = counter_after (dispatch_count st) (?c # map it_cadence (new_iterations st1 st'))"
      by (simp only: counter_after.simps)
    also have "?c # map it_cadence (new_iterations st1 st') = map it_cadence (new_iterations st st')"
      by (simp only: its list.map iteration.select_convs)
    finally have two: "dispatch_count st' =
       counter_after (dispatch_count st) (map it_cadence (new_iterations st st'))" .
    from one two show ?thesis
      by (rule conjI)
  qed
qed

lemma run_steps_commits:
  assumes wf: "display_interval (inst_integrator inst) \<noteq> 0"
    and run: "run_steps E inst cam xs st = Inr st'"
    and sfx: "\<forall>e \<in> set sfx. neutral e"
  shows "map (list_ex is_progress) (segments (new_events st st' @ sfx)) =
       map it_commit (new_iterations st st')"
  using run
proof (induction xs arbitrary: st)
  case Nil
  then have "new_events st st' = []" "new_iterations st st' = []"
    by (simp_all add: new_events_def new_iterations_def)
  with segments_neutral [OF sfx] show ?case
    by simp
next
  case (Cons x xs)
  from Cons.prems show ?case
  proof (cases rule: run_steps_cases)
    case (Advance t)
    from Cons.IH [OF Advance(2)] show ?thesis
      by (simp add: run_steps_Advance_segments [OF wf Advance(2)]
          run_steps_Advance_iterations [of st st' t])
  next
    case (Sample s st1)
    have head: "\<forall>e \<in> set (takeWhile (\<lambda>x. \<not> is_Dispatch x) (new_events st1 st' @ sfx)). neutral e"
      by (rule run_steps_head_neutral [OF wf Sample(3) sfx])
    have "map (list_ex is_progress) (segments (new_events st st' @ sfx))
        = fires_at E inst st
          # map (list_ex is_progress) (segments (new_events st1 st' @ sfx))"
      by (simp only: run_steps_Sample_segments [OF wf Sample(2,3)] list.map
          committed_chunk [OF head])
    also have "\<dots> = fires_at E inst st # map it_commit (new_iterations st1 st')"
      by (simp only: Cons.IH [OF Sample(3)])
    also have "\<dots> = map it_commit (new_iterations st st')"
      by (simp only: run_steps_Sample_iterations [OF wf Sample(2,3)] list.map
          iteration.select_convs)
    finally show ?thesis .
  qed
qed

section \<open>The dispatches of one camera\<close>

lemma render_one_camera_eq:
  assumes smp: "inst_sampler inst \<noteq> None"
  shows "render_one_camera E inst cam st =
     (case render_kernel inst cam of
        Inl e \<Rightarrow> Inl (e, kernel_entry cam st)
      | Inr body \<Rightarrow>
          (case run_steps E inst cam (steps_of (shutter_samples cam)) (loop_entry cam st) of
             Inl e \<Rightarrow> Inl e
           | Inr st' \<Rightarrow> Inr (st'\<lparr>trace := trace st' @ [Synchronize, ProgressDone]\<rparr>)))"
proof -
  from smp obtain s where "inst_sampler inst = Some s"
    by auto
  then show ?thesis
    by (simp add: render_one_camera_def Let_def emit_def loop_entry_def prologue_def
        kernel_entry_def shutter_loop_run_steps split: sum.split)
qed

lemma kernel_defined_iff: "kernel_defined inst cam = (\<exists>body. render_kernel inst cam = Inr body)"
  by (simp add: kernel_defined_def split: sum.split)

lemma render_one_camera_run:
  assumes wf: "display_interval (inst_integrator inst) \<noteq> 0"
    and smp: "inst_sampler inst \<noteq> None"
    and kd: "kernel_defined inst cam"
  obtains st1 where
    "run_steps E inst cam (steps_of (shutter_samples cam)) (loop_entry cam st) = Inr st1"
    "render_one_camera E inst cam st = Inr (st1\<lparr>trace := trace st1 @ [Synchronize, ProgressDone]\<rparr>)"
    "new_events st (st1\<lparr>trace := trace st1 @ [Synchronize, ProgressDone]\<rparr>) =
       prologue cam @ new_events (loop_entry cam st) st1 @ [Synchronize, ProgressDone]"
    "new_iterations st (st1\<lparr>trace := trace st1 @ [Synchronize, ProgressDone]\<rparr>) =
       new_iterations (loop_entry cam st) st1"
proof -
  from kd obtain body where body: "render_kernel inst cam = Inr body"
    by (auto simp add: kernel_defined_iff)
  obtain st1 where run:
    "run_steps E inst cam (steps_of (shutter_samples cam)) (loop_entry cam st) = Inr st1"
    using run_steps_succeeds [OF wf] by blast
  then have res: "render_one_camera E inst cam st
      = Inr (st1\<lparr>trace := trace st1 @ [Synchronize, ProgressDone]\<rparr>)"
    by (simp add: render_one_camera_eq [OF smp] body)
  define b where "b = new_events (loop_entry cam st) st1"
  have "trace st1 = trace st @ prologue cam @ b"
    using run_steps_trace [OF wf run] by (simp add: loop_entry_def b_def)
  then have "new_events st (st1\<lparr>trace := trace st1 @ [Synchronize, ProgressDone]\<rparr>)
      = prologue cam @ b @ [Synchronize, ProgressDone]"
    by (simp add: new_events_def)
  then have ev: "new_events st (st1\<lparr>trace := trace st1 @ [Synchronize, ProgressDone]\<rparr>) =
       prologue cam @ new_events (loop_entry cam st) st1 @ [Synchronize, ProgressDone]"
    by (simp only: b_def)
  have its: "new_iterations st (st1\<lparr>trace := trace st1 @ [Synchronize, ProgressDone]\<rparr>) =
       new_iterations (loop_entry cam st) st1"
    by (simp add: new_iterations_def loop_entry_def)
  from run res ev its show ?thesis
    by (rule that)
qed

lemma render_one_camera_aborts:
  assumes smp: "inst_sampler inst \<noteq> None"
    and nk: "\<not> kernel_defined inst cam"
  obtains e where
    "render_kernel inst cam = Inl e"
    "render_one_camera E inst cam st = Inl (e, kernel_entry cam st)"
proof -
  from nk obtain e where e: "render_kernel inst cam = Inl e"
    by (cases "render_kernel inst cam") (simp_all add: kernel_defined_def)
  then have "render_one_camera E inst cam st = Inl (e, kernel_entry cam st)"
    by (simp add: render_one_camera_eq [OF smp])
  with e show ?thesis
    by (rule that)
qed

lemma kernel_entry_events:
  "new_events st (kernel_entry cam st) =
     [SamplerReset (film_resolution cam)
        (vec_x (film_resolution cam) * vec_y (film_resolution cam)) (cam_spp cam),
      PrinterReset, Synchronize]"
  "new_iterations st (kernel_entry cam st) = []"
  "printer_polls (kernel_entry cam st) = printer_polls st"
  "self (kernel_entry cam st) = self st"
  by (simp_all add: kernel_entry_def new_events_def new_iterations_def prologue_def)

lemma derived_integrator: "inst_integrator (derived_instance li pl node) = node"
  by (simp add: derived_instance_def ProgressiveIntegrator_Instance_def
      Integrator_Instance_def Let_def)

lemma derived_display:
  "inst_display (derived_instance li pl node) =
     (if display_enabled node then Some (Display ''Display'') else None)"
  by (simp add: derived_instance_def ProgressiveIntegrator_Instance_def Let_def)

lemma derived_sampler: "inst_sampler (derived_instance li pl node) \<noteq> None"
  by (simp add: derived_instance_def ProgressiveIntegrator_Instance_def
      Integrator_Instance_def Let_def)

lemma derived_pipeline: "inst_pipeline (derived_instance li pl node) = pl"
  by (simp add: derived_instance_def ProgressiveIntegrator_Instance_def
      Integrator_Instance_def Let_def)

lemma derived_base: "derived_instance Li pl node = ProgressiveIntegrator_Instance pl node"
  by (simp add: derived_instance_def ProgressiveIntegrator_Instance_def Let_def)

lemma derived_interval_nonzero:
  "display_interval (inst_integrator (derived_instance li pl
      (ProgressiveIntegrator scn desc))) \<noteq> 0"
proof -
  have "unat (display_interval (ProgressiveIntegrator scn desc)) \<noteq> 0"
    using display_interval_range [of scn desc] by simp
  then have "display_interval (ProgressiveIntegrator scn desc) \<noteq> 0"
    by (metis unsigned_0)
  then show ?thesis
    by (simp add: derived_integrator)
qed

lemma dispatch_indices_append:
  "dispatch_indices (xs @ ys) = dispatch_indices xs @ dispatch_indices ys"
  by (induction xs rule: dispatch_indices.induct) auto

lemma dispatch_indices_filter: "dispatch_indices (filter is_Dispatch es) = dispatch_indices es"
  by (induction es rule: dispatch_indices.induct) auto

lemma dispatch_indices_enumerate:
  "dispatch_indices (map (\<lambda>(k, s). Dispatch (a + of_nat k) (f s) (g s) r) (enumerate n xs))
     = map (\<lambda>k. a + of_nat k) [n..<n + length xs]"
proof (induction xs arbitrary: n)
  case Nil
  show ?case by simp
next
  case (Cons x xs)
  have "[n..<n + length (x # xs)] = n # [Suc n..<n + length (x # xs)]"
    by (rule upt_conv_Cons) simp
  moreover have "n + length (x # xs) = Suc n + length xs"
    by simp
  ultimately have "[n..<n + length (x # xs)] = n # [Suc n..<Suc n + length xs]"
    by (simp only:)
  with Cons.IH [of "Suc n"] show ?case
    by simp
qed

lemma unat_of_nat_upt:
  assumes "n \<le> 2 ^ 32"
  shows "map unat (map (\<lambda>k. (of_nat k :: uint)) [0..<n]) = [0..<n]"
proof -
  have "unat (of_nat k :: uint) = k" if "k < n" for k
  proof -
    from that assms have "k < 2 ^ 32" by simp
    then show ?thesis
      by (simp add: unat_of_nat take_bit_nat_eq_self)
  qed
  then have "map (unat \<circ> (\<lambda>k. (of_nat k :: uint))) [0..<n] = [0..<n]"
    by (intro map_idI) simp
  then show ?thesis
    by (simp only: map_map)
qed

lemma example_kernel_defined: "kernel_defined (example_instance n d) cam"
  by (simp add: kernel_defined_def render_kernel_def example_instance_def derived_instance_def
      example_Li_def Let_def)

lemma base_kernel_undefined: "\<not> kernel_defined (ProgressiveIntegrator_Instance pl node) cam"
  by (simp add: kernel_defined_def render_kernel_def ProgressiveIntegrator_Instance_def
      Let_def Li_def)

text \<open>
  The claim C1 at an object of the base class, whose \<^verbatim>\<open>Li\<close> is the one of lines 127 to
  130: a camera of resolution 4 by 4 with one shutter sample of 4 sub-samples and 4
  samples per pixel. The sub-sample counts sum to the camera's \<^verbatim>\<open>spp\<close>, 4, but
  \<^verbatim>\<open>_render_one_camera\<close> aborts in the definition of its kernel, after the sampler reset,
  the printer reset and the synchronisation: it submits no dispatch, not 4.
\<close>

theorem render_one_camera_base_aborts:
  "total_sub_samples (example_camera [4]) = unat (cam_spp (example_camera [4]))
   \<and> unat (cam_spp (example_camera [4])) = 4
   \<and> render_one_camera (example_env 0) (base_instance 5 False) (example_camera [4])
       initial_state
     = Inl (Fatal ''ProgressiveIntegrator::Li() is not implemented.''
              ''src/base/integrator.cpp'' 129,
            initial_state\<lparr>trace := [SamplerReset (make_uint2 4 4) 16 4, PrinterReset,
              Synchronize]\<rparr>)
   \<and> length (filter is_Dispatch (new_events initial_state (final_state
        (render_one_camera (example_env 0) (base_instance 5 False) (example_camera [4])
           initial_state)))) = 0"
proof -
  have budget: "total_sub_samples (example_camera [4]) = unat (cam_spp (example_camera [4]))"
    by (simp add: total_sub_samples_def example_camera_def)
  have spp: "unat (cam_spp (example_camera [4])) = 4"
    by (simp add: example_camera_def)
  have smp: "inst_sampler (base_instance 5 False) \<noteq> None"
    by (simp add: base_instance_def ProgressiveIntegrator_Instance_def Integrator_Instance_def
        Let_def)
  have k: "render_kernel (base_instance 5 False) (example_camera [4])
      = Inl (Fatal ''ProgressiveIntegrator::Li() is not implemented.''
               ''src/base/integrator.cpp'' 129)"
    by (simp add: render_kernel_def base_instance_def ProgressiveIntegrator_Instance_def
        Let_def Li_def)
  have run: "render_one_camera (example_env 0) (base_instance 5 False) (example_camera [4])
       initial_state
     = Inl (Fatal ''ProgressiveIntegrator::Li() is not implemented.''
              ''src/base/integrator.cpp'' 129,
            initial_state\<lparr>trace := [SamplerReset (make_uint2 4 4) 16 4, PrinterReset,
              Synchronize]\<rparr>)"
    by (simp only: render_one_camera_eq [OF smp] k sum.case)
      (simp add: kernel_entry_def prologue_def initial_state_def example_camera_def)
  have none: "length (filter is_Dispatch (new_events initial_state (final_state
        (render_one_camera (example_env 0) (base_instance 5 False) (example_camera [4])
           initial_state)))) = 0"
    by (simp only: run) (simp add: final_state_def new_events_def initial_state_def)
  from budget spp run none show ?thesis
    by (intro conjI)
qed

text \<open>
  C1, amended. Take any camera whose shutter samples' sub-sample counts sum to its
  \<^verbatim>\<open>spp\<close>, \<open>S\<close>, and any instance built by the constructors, of the base class or of a
  derived class with its own \<^verbatim>\<open>Li\<close>. If the instance's \<^verbatim>\<open>Li\<close> returns when the kernel is
  defined, \<^verbatim>\<open>_render_one_camera\<close> returns, it submits exactly \<open>S\<close> dispatches, the sample
  indices they are given are \<open>0, 1, \<dots>, S - 1\<close> in the order of submission, and the sample
  index ends at \<open>S\<close>. If \<^verbatim>\<open>Li\<close> ends in an error, as the one of the base class does,
  \<^verbatim>\<open>_render_one_camera\<close> aborts with that error before its loop and submits no dispatch.
\<close>

theorem render_one_camera_dispatches:
  assumes budget: "total_sub_samples cam = unat (cam_spp cam)"
  shows "(kernel_defined (derived_instance li pl (ProgressiveIntegrator scn desc)) cam \<longrightarrow>
          (\<exists>st'. render_one_camera E
                (derived_instance li pl (ProgressiveIntegrator scn desc)) cam st = Inr st'
             \<and> length (filter is_Dispatch (new_events st st')) = unat (cam_spp cam)
             \<and> map unat (dispatch_indices (new_events st st')) = [0..<unat (cam_spp cam)]
             \<and> sample_id st' = cam_spp cam))
       \<and> (\<not> kernel_defined (derived_instance li pl (ProgressiveIntegrator scn desc)) cam \<longrightarrow>
          (\<exists>e st'. render_one_camera E
                (derived_instance li pl (ProgressiveIntegrator scn desc)) cam st = Inl (e, st')
             \<and> render_kernel (derived_instance li pl (ProgressiveIntegrator scn desc)) cam
                 = Inl e
             \<and> filter is_Dispatch (new_events st st') = []))"
proof (intro conjI impI)
  let ?inst = "derived_instance li pl (ProgressiveIntegrator scn desc)"
  have wf: "display_interval (inst_integrator ?inst) \<noteq> 0"
    by (rule derived_interval_nonzero)
  have smp: "inst_sampler ?inst \<noteq> None"
    by (rule derived_sampler)
  {
    assume nk: "\<not> kernel_defined ?inst cam"
    from render_one_camera_aborts [OF smp nk, of E st]
    obtain e where "render_kernel ?inst cam = Inl e"
      and "render_one_camera E ?inst cam st = Inl (e, kernel_entry cam st)"
      by blast
    moreover have "filter is_Dispatch (new_events st (kernel_entry cam st)) = []"
      by (simp add: kernel_entry_events)
    ultimately show "\<exists>e st'. render_one_camera E ?inst cam st = Inl (e, st')
        \<and> render_kernel ?inst cam = Inl e \<and> filter is_Dispatch (new_events st st') = []"
      by (intro exI conjI)
  }
  assume kd: "kernel_defined ?inst cam"
  obtain st1 where run:
      "run_steps E ?inst cam (steps_of (shutter_samples cam)) (loop_entry cam st) = Inr st1"
    and res: "render_one_camera E ?inst cam st
      = Inr (st1\<lparr>trace := trace st1 @ [Synchronize, ProgressDone]\<rparr>)"
    and ev: "new_events st (st1\<lparr>trace := trace st1 @ [Synchronize, ProgressDone]\<rparr>) =
       prologue cam @ new_events (loop_entry cam st) st1 @ [Synchronize, ProgressDone]"
    using render_one_camera_run [OF wf smp kd, of E st] by blast
  let ?st' = "st1\<lparr>trace := trace st1 @ [Synchronize, ProgressDone]\<rparr>"
  let ?n = "unat (cam_spp cam)"
  have len: "length (samples_of (steps_of (shutter_samples cam))) = ?n"
    using budget by (simp add: length_samples_of_steps_of total_sub_samples_def)
  have loop: "filter is_Dispatch (new_events (loop_entry cam st) st1) =
       map (\<lambda>(k, s). Dispatch (0 + of_nat k) (point_time s) (point_weight s)
                       (film_resolution cam))
         (enumerate 0 (samples_of (steps_of (shutter_samples cam))))"
    and sid: "sample_id st1 = of_nat ?n"
    using run_steps_dispatches [OF wf run] len by (simp_all add: loop_entry_def)
  have filt: "filter is_Dispatch (new_events st ?st') =
      filter is_Dispatch (new_events (loop_entry cam st) st1)"
    by (simp add: ev prologue_def)
  have "length (filter is_Dispatch (new_events st ?st')) = ?n"
    by (simp add: filt loop len)
  moreover have "map unat (dispatch_indices (new_events st ?st')) = [0..<?n]"
  proof -
    have "dispatch_indices (new_events st ?st')
        = dispatch_indices (filter is_Dispatch (new_events st ?st'))"
      by (simp only: dispatch_indices_filter)
    also have "\<dots> = map (\<lambda>k. 0 + of_nat k) [0..<0 + ?n]"
      unfolding filt loop by (simp only: dispatch_indices_enumerate len)
    finally have idx: "dispatch_indices (new_events st ?st') = map of_nat [0..<?n]"
      by simp
    have "?n < 2 ^ 32"
      using unsigned_less [of "cam_spp cam"] by simp
    then have "?n \<le> 2 ^ 32"
      by simp
    with idx show ?thesis
      by (simp only: unat_of_nat_upt)
  qed
  moreover have "sample_id ?st' = cam_spp cam"
    by (simp add: sid)
  ultimately show "\<exists>st'. render_one_camera E ?inst cam st = Inr st'
             \<and> length (filter is_Dispatch (new_events st st')) = unat (cam_spp cam)
             \<and> map unat (dispatch_indices (new_events st st')) = [0..<unat (cam_spp cam)]
             \<and> sample_id st' = cam_spp cam"
    using res by (intro exI conjI)
qed

text \<open>
  The scenario of the spec: resolution 4 by 4, one shutter sample of 4 sub-samples,
  4 samples per pixel, on an instance of a derived class whose \<^verbatim>\<open>Li\<close> returns.
\<close>

theorem render_one_camera_dispatches_witness:
  "total_sub_samples (example_camera [4]) = unat (cam_spp (example_camera [4]))
   \<and> kernel_defined (example_instance 5 False) (example_camera [4])
   \<and> (\<exists>st'. render_one_camera (example_env 0) (example_instance 5 False) (example_camera [4])
              initial_state = Inr st'
          \<and> length (filter is_Dispatch (new_events initial_state st')) = 4
          \<and> map unat (dispatch_indices (new_events initial_state st')) = [0, 1, 2, 3]
          \<and> sample_id st' = 4)"
proof -
  have budget: "total_sub_samples (example_camera [4]) = unat (cam_spp (example_camera [4]))"
    by (simp add: total_sub_samples_def example_camera_def)
  have kd: "kernel_defined (example_instance 5 False) (example_camera [4])"
    by (rule example_kernel_defined)
  have spp: "cam_spp (example_camera [4]) = 4"
    by (simp add: example_camera_def)
  have four: "unat (4 :: uint) = 4" "[0..<4] = [0, 1, 2, 3]"
    by (simp_all add: upt_rec)
  from render_one_camera_dispatches [OF budget, of example_Li "example_pipeline True"
      example_scene "example_desc [(''display_interval'', 5)] False" "example_env 0"
      initial_state, THEN conjunct1, folded example_instance_def] kd
  have "\<exists>st'. render_one_camera (example_env 0) (example_instance 5 False) (example_camera [4])
              initial_state = Inr st'
          \<and> length (filter is_Dispatch (new_events initial_state st')) =
              unat (cam_spp (example_camera [4]))
          \<and> map unat (dispatch_indices (new_events initial_state st')) =
              [0..<unat (cam_spp (example_camera [4]))]
          \<and> sample_id st' = cam_spp (example_camera [4])"
    by (rule mp)
  then have "\<exists>st'. render_one_camera (example_env 0) (example_instance 5 False)
              (example_camera [4]) initial_state = Inr st'
          \<and> length (filter is_Dispatch (new_events initial_state st')) = 4
          \<and> map unat (dispatch_indices (new_events initial_state st')) = [0, 1, 2, 3]
          \<and> sample_id st' = 4"
    by (simp only: spp four)
  with budget kd show ?thesis
    by (intro conjI)
qed

section \<open>The commit cadence\<close>

lemma example_instance_display:
  "inst_display (example_instance n d) = (if d then Some (Display ''Display'') else None)"
  by (simp add: example_instance_def derived_display ProgressiveIntegrator_def
      property_bool_or_default_def example_desc_def)

lemma example_instance_sampler: "inst_sampler (example_instance n d) \<noteq> None"
  unfolding example_instance_def by (rule derived_sampler)

lemma example_interval_nonzero: "display_interval (inst_integrator (example_instance n d)) \<noteq> 0"
  unfolding example_instance_def by (rule derived_interval_nonzero)

lemma example_interval:
  assumes "1 \<le> n" and "n \<le> 65535"
  shows "(ucast (display_interval (inst_integrator (example_instance n d))) :: uint) = n"
proof -
  from assms have "clamp n 1 65535 = n"
    by (auto simp add: clamp_def)
  moreover from assms have "unat n < 2 ^ 16"
    by (simp add: word_le_nat_alt)
  then have "(ucast (ucast n :: uint16_t) :: uint) = n"
    by (simp add: word_eq_iff_unsigned [where ?'a = nat] unsigned_ucast_eq
        unsigned_take_bit_eq take_bit_nat_eq_self)
  ultimately show ?thesis
    by (simp add: example_instance_def derived_integrator ProgressiveIntegrator_def
        property_uint_or_default_def example_desc_def)
qed

lemma render_one_camera_cadences:
  assumes wf: "display_interval (inst_integrator inst) \<noteq> 0"
    and smp: "inst_sampler inst \<noteq> None"
    and kd: "kernel_defined inst cam"
  shows "\<exists>st'. render_one_camera E inst cam st = Inr st'
     \<and> map it_cadence (new_iterations st st') =
         map (\<lambda>k. cadence_at E inst (close_polls st + k)) [0..<total_sub_samples cam]"
proof -
  obtain st1 where run:
      "run_steps E inst cam (steps_of (shutter_samples cam)) (loop_entry cam st) = Inr st1"
    and res: "render_one_camera E inst cam st
      = Inr (st1\<lparr>trace := trace st1 @ [Synchronize, ProgressDone]\<rparr>)"
    and its: "new_iterations st (st1\<lparr>trace := trace st1 @ [Synchronize, ProgressDone]\<rparr>) =
       new_iterations (loop_entry cam st) st1"
    using render_one_camera_run [OF wf smp kd, of E st] by blast
  have len: "length (samples_of (steps_of (shutter_samples cam))) = total_sub_samples cam"
    by (simp add: length_samples_of_steps_of total_sub_samples_def)
  have "map it_cadence (new_iterations st (st1\<lparr>trace := trace st1 @ [Synchronize, ProgressDone]\<rparr>)) =
      map (\<lambda>k. cadence_at E inst (close_polls st + k)) [0..<total_sub_samples cam]"
    using run_steps_cadences [OF wf run] by (simp add: its len loop_entry_def)
  with res show ?thesis
    by (intro exI conjI)
qed

text \<open>
  The claim C2 at a display that asks to close at its second query and not afterwards,
  with the interval 2 and four dispatches. The display signals close at the second
  dispatch, yet the third and the fourth dispatch use the interval again, not 32: the
  display is asked afresh at every dispatch.
\<close>

theorem commit_cadence_follows_each_answer:
  "display_should_close flickering_env (close_polls initial_state + 1)
   \<and> map it_cadence (new_iterations initial_state (final_state
        (render_one_camera flickering_env (example_instance 2 True) (example_camera [4])
           initial_state))) = [2, 32, 2, 2]"
proof -
  have closes: "display_should_close flickering_env (close_polls initial_state + 1)"
    by (simp add: flickering_env_def initial_state_def)
  from render_one_camera_cadences [OF example_interval_nonzero example_instance_sampler
      example_kernel_defined, of flickering_env 2 True "example_camera [4]" initial_state]
  obtain st' where res: "render_one_camera flickering_env (example_instance 2 True)
        (example_camera [4]) initial_state = Inr st'"
    and cad: "map it_cadence (new_iterations initial_state st') =
        map (\<lambda>k. cadence_at flickering_env (example_instance 2 True)
               (close_polls initial_state + k)) [0..<total_sub_samples (example_camera [4])]"
    by (elim exE conjE)
  have total: "total_sub_samples (example_camera [4]) = 4"
    by (simp add: total_sub_samples_def example_camera_def)
  have upt4: "[0..<4] = [0, 1, 2, 3]"
    by (simp add: upt_rec)
  have interval: "(ucast (display_interval (inst_integrator (example_instance 2 True))) :: uint) = 2"
    by (rule example_interval) simp_all
  have "map it_cadence (new_iterations initial_state st') = [2, 32, 2, 2]"
    unfolding cad total upt4
    by (simp add: cadence_at_def example_instance_display interval flickering_env_def
        initial_state_def)
  then have "map it_cadence (new_iterations initial_state (final_state
        (render_one_camera flickering_env (example_instance 2 True) (example_camera [4])
           initial_state))) = [2, 32, 2, 2]"
    by (simp only: res) (simp add: final_state_def)
  with closes show ?thesis
    by (intro conjI)
qed

text \<open>
  C2, amended. Take any instance built by the constructors, of the base class or of a
  derived class with its own \<^verbatim>\<open>Li\<close>. If its kernel is defined, \<^verbatim>\<open>_render_one_camera\<close>
  returns, and the value of \<^verbatim>\<open>dispatches_per_commit\<close> at its \<open>k\<close>-th dispatch is the
  node's display interval if the instance has a display and the display's answer to that
  dispatch's \<^verbatim>\<open>should_close\<close> query is no, and 32 otherwise (no display, or the display
  asks to close). In particular, with a display that keeps asking to close once it has
  asked, every dispatch from the first such answer on uses 32. If the kernel is not
  defined, \<^verbatim>\<open>_render_one_camera\<close> aborts before its loop: there is no dispatch and no
  cadence.
\<close>

theorem commit_cadence:
  "(kernel_defined (derived_instance li pl (ProgressiveIntegrator scn desc)) cam \<longrightarrow>
     (\<exists>st'. render_one_camera E
            (derived_instance li pl (ProgressiveIntegrator scn desc)) cam st = Inr st'
       \<and> map it_cadence (new_iterations st st') =
           map (\<lambda>k. if inst_display (derived_instance li pl
                          (ProgressiveIntegrator scn desc)) \<noteq> None
                       \<and> \<not> display_should_close E (close_polls st + k)
                    then ucast (display_interval (ProgressiveIntegrator scn desc)) else 32)
             [0..<total_sub_samples cam]
       \<and> ((\<forall>a b. display_should_close E a \<and> a \<le> b \<longrightarrow> display_should_close E b) \<longrightarrow>
          (\<forall>j k. display_should_close E (close_polls st + j) \<and> j \<le> k
                \<and> k < total_sub_samples cam
             \<longrightarrow> it_cadence (new_iterations st st' ! k) = 32))))
   \<and> (\<not> kernel_defined (derived_instance li pl (ProgressiveIntegrator scn desc)) cam \<longrightarrow>
     (\<exists>e st'. render_one_camera E
            (derived_instance li pl (ProgressiveIntegrator scn desc)) cam st = Inl (e, st')
       \<and> filter is_Dispatch (new_events st st') = []
       \<and> new_iterations st st' = []))"
proof (intro conjI impI)
  let ?inst = "derived_instance li pl (ProgressiveIntegrator scn desc)"
  let ?n = "total_sub_samples cam"
  have wf: "display_interval (inst_integrator ?inst) \<noteq> 0"
    by (rule derived_interval_nonzero)
  have smp: "inst_sampler ?inst \<noteq> None"
    by (rule derived_sampler)
  {
    assume nk: "\<not> kernel_defined ?inst cam"
    from render_one_camera_aborts [OF smp nk, of E st]
    obtain e where "render_one_camera E ?inst cam st = Inl (e, kernel_entry cam st)"
      by blast
    moreover have "filter is_Dispatch (new_events st (kernel_entry cam st)) = []"
      by (simp add: kernel_entry_events)
    moreover have "new_iterations st (kernel_entry cam st) = []"
      by (simp add: kernel_entry_events)
    ultimately show "\<exists>e st'. render_one_camera E ?inst cam st = Inl (e, st')
        \<and> filter is_Dispatch (new_events st st') = [] \<and> new_iterations st st' = []"
      by (intro exI conjI)
  }
  assume kd: "kernel_defined ?inst cam"
  from render_one_camera_cadences [OF wf smp kd, of E st]
  obtain st' where res: "render_one_camera E ?inst cam st = Inr st'"
    and cad: "map it_cadence (new_iterations st st') =
      map (\<lambda>k. cadence_at E ?inst (close_polls st + k)) [0..<?n]"
    by (elim exE conjE)
  from cad have first: "map it_cadence (new_iterations st st') =
         map (\<lambda>k. if inst_display ?inst \<noteq> None \<and> \<not> display_should_close E (close_polls st + k)
                  then ucast (display_interval (ProgressiveIntegrator scn desc)) else 32)
           [0..<?n]"
    by (simp add: cadence_at_def derived_integrator)
  have second: "it_cadence (new_iterations st st' ! k) = 32"
    if sticky: "\<forall>a b. display_should_close E a \<and> a \<le> b \<longrightarrow> display_should_close E b"
      and closed: "display_should_close E (close_polls st + j)" and "j \<le> k" and "k < ?n"
    for j k
  proof -
    have "length (new_iterations st st') = ?n"
      using cad by (metis length_map length_upt minus_nat.diff_0)
    with \<open>k < ?n\<close> have "it_cadence (new_iterations st st' ! k)
        = map it_cadence (new_iterations st st') ! k"
      by simp
    also have "\<dots> = cadence_at E ?inst (close_polls st + k)"
      using \<open>k < ?n\<close> by (simp add: cad)
    also have "display_should_close E (close_polls st + k)"
      using sticky closed \<open>j \<le> k\<close> by (meson add_le_cancel_left)
    then have "cadence_at E ?inst (close_polls st + k) = 32"
      by (simp add: cadence_at_def)
    finally show ?thesis .
  qed
  then have third: "(\<forall>a b. display_should_close E a \<and> a \<le> b \<longrightarrow> display_should_close E b) \<longrightarrow>
          (\<forall>j k. display_should_close E (close_polls st + j) \<and> j \<le> k \<and> k < ?n
             \<longrightarrow> it_cadence (new_iterations st st' ! k) = 32)"
    by blast
  from res first third show "\<exists>st'. render_one_camera E ?inst cam st = Inr st'
       \<and> map it_cadence (new_iterations st st') =
           map (\<lambda>k. if inst_display ?inst \<noteq> None
                       \<and> \<not> display_should_close E (close_polls st + k)
                    then ucast (display_interval (ProgressiveIntegrator scn desc)) else 32)
             [0..<?n]
       \<and> ((\<forall>a b. display_should_close E a \<and> a \<le> b \<longrightarrow> display_should_close E b) \<longrightarrow>
          (\<forall>j k. display_should_close E (close_polls st + j) \<and> j \<le> k \<and> k < ?n
             \<longrightarrow> it_cadence (new_iterations st st' ! k) = 32))"
    by (intro exI conjI)
qed

text \<open>
  Interval 5 and five sub-samples: a display that asks to close from its third answer
  on, a display that never asks during the render, and no display at all.
\<close>

theorem commit_cadence_witness:
  "(\<exists>st'. render_one_camera (example_env 2) (example_instance 5 True) (example_camera [2, 3])
            initial_state = Inr st'
      \<and> map it_cadence (new_iterations initial_state st') = [5, 5, 32, 32, 32]
      \<and> it_cadence (new_iterations initial_state st' ! 4) = 32)
   \<and> (\<exists>st'. render_one_camera (example_env 9) (example_instance 5 True) (example_camera [2, 3])
            initial_state = Inr st'
      \<and> map it_cadence (new_iterations initial_state st') = [5, 5, 5, 5, 5])
   \<and> (\<exists>st'. render_one_camera (example_env 9) (example_instance 5 False) (example_camera [2, 3])
            initial_state = Inr st'
      \<and> map it_cadence (new_iterations initial_state st') = [32, 32, 32, 32, 32])"
proof -
  have total: "total_sub_samples (example_camera [2, 3]) = 5"
    by (simp add: total_sub_samples_def example_camera_def)
  have upt5: "[0..<5] = [0, 1, 2, 3, 4]"
    by (simp add: upt_rec)
  have interval: "(ucast (display_interval (ProgressiveIntegrator example_scene
      (example_desc [(''display_interval'', 5)] d))) :: uint) = 5" for d
    by (simp add: ProgressiveIntegrator_def property_uint_or_default_def example_desc_def
        clamp_def)
  have sticky: "\<forall>a b. display_should_close (example_env c) a \<and> a \<le> b
      \<longrightarrow> display_should_close (example_env c) b" for c
    by (simp add: example_env_def)
  have closed: "display_should_close (example_env 2) (close_polls initial_state + 2)"
    by (simp add: example_env_def initial_state_def)
  from commit_cadence [where li = example_Li and pl = "example_pipeline True"
      and scn = example_scene and desc = "example_desc [(''display_interval'', 5)] True"
      and cam = "example_camera [2, 3]" and E = "example_env 2" and st = initial_state,
      THEN conjunct1, folded example_instance_def, THEN mp, OF example_kernel_defined]
  have "\<exists>st'. render_one_camera (example_env 2) (example_instance 5 True)
        (example_camera [2, 3]) initial_state = Inr st'
      \<and> map it_cadence (new_iterations initial_state st') = [5, 5, 32, 32, 32]
      \<and> (\<forall>j k. 2 \<le> j \<and> j \<le> k \<and> k < 5
            \<longrightarrow> it_cadence (new_iterations initial_state st' ! k) = 32)"
    using example_instance_display [of 5 True]
    by (simp add: total interval upt5 example_env_def initial_state_def)
  then obtain st' where r: "render_one_camera (example_env 2) (example_instance 5 True)
        (example_camera [2, 3]) initial_state = Inr st'"
    and m: "map it_cadence (new_iterations initial_state st') = [5, 5, 32, 32, 32]"
    and c: "\<forall>j k. 2 \<le> j \<and> j \<le> k \<and> k < 5
            \<longrightarrow> it_cadence (new_iterations initial_state st' ! k) = 32"
    by (elim exE conjE)
  from c have "(2::nat) \<le> 2 \<and> (2::nat) \<le> 4 \<and> (4::nat) < 5
      \<longrightarrow> it_cadence (new_iterations initial_state st' ! 4) = 32"
    by (elim allE)
  then have "it_cadence (new_iterations initial_state st' ! 4) = 32"
    by simp
  with r m have one: "\<exists>st'. render_one_camera (example_env 2) (example_instance 5 True)
        (example_camera [2, 3]) initial_state = Inr st'
      \<and> map it_cadence (new_iterations initial_state st') = [5, 5, 32, 32, 32]
      \<and> it_cadence (new_iterations initial_state st' ! 4) = 32"
    by (intro exI conjI)
  from commit_cadence [where li = example_Li and pl = "example_pipeline True"
      and scn = example_scene and desc = "example_desc [(''display_interval'', 5)] True"
      and cam = "example_camera [2, 3]" and E = "example_env 9" and st = initial_state,
      THEN conjunct1, folded example_instance_def, THEN mp, OF example_kernel_defined]
  have "\<exists>st'. render_one_camera (example_env 9) (example_instance 5 True)
        (example_camera [2, 3]) initial_state = Inr st'
      \<and> map it_cadence (new_iterations initial_state st') = [5, 5, 5, 5, 5]
      \<and> (\<forall>j k. 9 \<le> j \<and> j \<le> k \<and> k < 5
            \<longrightarrow> it_cadence (new_iterations initial_state st' ! k) = 32)"
    using example_instance_display [of 5 True]
    by (simp add: total interval upt5 example_env_def initial_state_def)
  then obtain st' where "render_one_camera (example_env 9) (example_instance 5 True)
        (example_camera [2, 3]) initial_state = Inr st'"
    and "map it_cadence (new_iterations initial_state st') = [5, 5, 5, 5, 5]"
    by (elim exE conjE)
  then have two: "\<exists>st'. render_one_camera (example_env 9) (example_instance 5 True)
        (example_camera [2, 3]) initial_state = Inr st'
      \<and> map it_cadence (new_iterations initial_state st') = [5, 5, 5, 5, 5]"
    by (intro exI conjI)
  from commit_cadence [where li = example_Li and pl = "example_pipeline True"
      and scn = example_scene and desc = "example_desc [(''display_interval'', 5)] False"
      and cam = "example_camera [2, 3]" and E = "example_env 9" and st = initial_state,
      THEN conjunct1, folded example_instance_def, THEN mp, OF example_kernel_defined]
  have "\<exists>st'. render_one_camera (example_env 9) (example_instance 5 False)
        (example_camera [2, 3]) initial_state = Inr st'
      \<and> map it_cadence (new_iterations initial_state st') = [32, 32, 32, 32, 32]
      \<and> (\<forall>j k. 9 \<le> j \<and> j \<le> k \<and> k < 5
            \<longrightarrow> it_cadence (new_iterations initial_state st' ! k) = 32)"
    using example_instance_display [of 5 False]
    by (simp add: total interval upt5 example_env_def initial_state_def)
  then obtain st' where "render_one_camera (example_env 9) (example_instance 5 False)
        (example_camera [2, 3]) initial_state = Inr st'"
    and "map it_cadence (new_iterations initial_state st') = [32, 32, 32, 32, 32]"
    by (elim exE conjE)
  then have three: "\<exists>st'. render_one_camera (example_env 9) (example_instance 5 False)
        (example_camera [2, 3]) initial_state = Inr st'
      \<and> map it_cadence (new_iterations initial_state st') = [32, 32, 32, 32, 32]"
    by (intro exI conjI)
  from one two three show ?thesis
    by (intro conjI)
qed

section \<open>Retrieving the printer\<close>

lemma neutral_epilogue: "\<forall>e \<in> set [Synchronize, ProgressDone :: 'f event]. neutral e"
  by (simp add: neutral_def)

lemma segments_prologue: "segments (prologue cam @ es) = segments es"
  by (rule segments_skip) (simp add: prologue_def)

lemma filter_retrieve_prologue:
  "filter (\<lambda>e. e = PrinterRetrieve) (prologue cam @ es @ [Synchronize, ProgressDone])
     = filter (\<lambda>e. e = PrinterRetrieve) es"
  by (simp add: prologue_def)

lemma length_filter_map_bool:
  "length (filter (\<lambda>b. b) (map P xs)) = length (filter P xs)"
  by (induction xs) auto

text \<open>
  C7. Take any instance built by the constructors, of the base class or of a derived
  class with its own \<^verbatim>\<open>Li\<close>, whatever its display and its interval. If its kernel is
  defined, \<^verbatim>\<open>_render_one_camera\<close> returns and asks the printer once per dispatch; the
  \<open>k\<close>-th dispatch is followed at once by a retrieval exactly when the printer's \<open>k\<close>-th
  answer is that it is not empty, and the trace holds no other retrieval. If the kernel
  is not defined, \<^verbatim>\<open>_render_one_camera\<close> aborts before its loop: there is no dispatch,
  the printer is not asked and nothing is retrieved.
\<close>

theorem printer_retrieved_after_every_dispatch:
  "(kernel_defined (derived_instance li pl (ProgressiveIntegrator scn desc)) cam \<longrightarrow>
     (\<exists>st'. render_one_camera E
            (derived_instance li pl (ProgressiveIntegrator scn desc)) cam st = Inr st'
       \<and> map (\<lambda>seg. take 1 seg = [PrinterRetrieve]) (segments (new_events st st')) =
           map (\<lambda>k. \<not> printer_empty E (printer_polls st + k)) [0..<total_sub_samples cam]
       \<and> length (filter (\<lambda>e. e = PrinterRetrieve) (new_events st st')) =
           length (filter (\<lambda>k. \<not> printer_empty E (printer_polls st + k))
                     [0..<total_sub_samples cam])
       \<and> printer_polls st' = printer_polls st + total_sub_samples cam))
   \<and> (\<not> kernel_defined (derived_instance li pl (ProgressiveIntegrator scn desc)) cam \<longrightarrow>
     (\<exists>e st'. render_one_camera E
            (derived_instance li pl (ProgressiveIntegrator scn desc)) cam st = Inl (e, st')
       \<and> filter is_Dispatch (new_events st st') = []
       \<and> filter (\<lambda>e. e = PrinterRetrieve) (new_events st st') = []
       \<and> printer_polls st' = printer_polls st))"
proof (intro conjI impI)
  let ?inst = "derived_instance li pl (ProgressiveIntegrator scn desc)"
  let ?n = "total_sub_samples cam"
  have wf: "display_interval (inst_integrator ?inst) \<noteq> 0"
    by (rule derived_interval_nonzero)
  have smp: "inst_sampler ?inst \<noteq> None"
    by (rule derived_sampler)
  {
    assume nk: "\<not> kernel_defined ?inst cam"
    from render_one_camera_aborts [OF smp nk, of E st]
    obtain e where "render_one_camera E ?inst cam st = Inl (e, kernel_entry cam st)"
      by blast
    moreover have "filter is_Dispatch (new_events st (kernel_entry cam st)) = []"
      by (simp add: kernel_entry_events)
    moreover have "filter (\<lambda>e. e = PrinterRetrieve) (new_events st (kernel_entry cam st)) = []"
      by (simp add: kernel_entry_events)
    moreover have "printer_polls (kernel_entry cam st) = printer_polls st"
      by (simp add: kernel_entry_events)
    ultimately show "\<exists>e st'. render_one_camera E ?inst cam st = Inl (e, st')
        \<and> filter is_Dispatch (new_events st st') = []
        \<and> filter (\<lambda>e. e = PrinterRetrieve) (new_events st st') = []
        \<and> printer_polls st' = printer_polls st"
      by (intro exI conjI)
  }
  assume kd: "kernel_defined ?inst cam"
  obtain st1 where run:
      "run_steps E ?inst cam (steps_of (shutter_samples cam)) (loop_entry cam st) = Inr st1"
    and res: "render_one_camera E ?inst cam st
      = Inr (st1\<lparr>trace := trace st1 @ [Synchronize, ProgressDone]\<rparr>)"
    and ev: "new_events st (st1\<lparr>trace := trace st1 @ [Synchronize, ProgressDone]\<rparr>) =
       prologue cam @ new_events (loop_entry cam st) st1 @ [Synchronize, ProgressDone]"
    using render_one_camera_run [OF wf smp kd, of E st] by blast
  let ?st' = "st1\<lparr>trace := trace st1 @ [Synchronize, ProgressDone]\<rparr>"
  have len: "length (samples_of (steps_of (shutter_samples cam))) = ?n"
    by (simp add: length_samples_of_steps_of total_sub_samples_def)
  have polls0: "printer_polls (loop_entry cam st) = printer_polls st"
    by (simp add: loop_entry_def)
  have "map (\<lambda>seg. take 1 seg = [PrinterRetrieve]) (segments (new_events st ?st')) =
      map (\<lambda>seg. take 1 seg = [PrinterRetrieve])
        (segments (new_events (loop_entry cam st) st1 @ [Synchronize, ProgressDone]))"
    by (simp only: ev segments_prologue)
  also have "\<dots> = map (\<lambda>k. \<not> printer_empty E (printer_polls st + k)) [0..<?n]"
    using run_steps_retrieves [OF wf run neutral_epilogue] by (simp only: len polls0)
  finally have one: "map (\<lambda>seg. take 1 seg = [PrinterRetrieve]) (segments (new_events st ?st')) =
      map (\<lambda>k. \<not> printer_empty E (printer_polls st + k)) [0..<?n]" .
  have "length (filter (\<lambda>e. e = PrinterRetrieve) (new_events st ?st')) =
      length (filter (\<lambda>e. e = PrinterRetrieve) (new_events (loop_entry cam st) st1))"
    by (simp only: ev filter_retrieve_prologue)
  also have "\<dots> = length (filter (\<lambda>b. b)
         (map (\<lambda>k. \<not> printer_empty E (printer_polls st + k)) [0..<?n]))"
    using run_steps_retrieve_count [OF wf run] by (simp only: len polls0)
  finally have two: "length (filter (\<lambda>e. e = PrinterRetrieve) (new_events st ?st')) =
         length (filter (\<lambda>k. \<not> printer_empty E (printer_polls st + k)) [0..<?n])"
    by (simp only: length_filter_map_bool)
  have three: "printer_polls ?st' = printer_polls st + ?n"
    using run_steps_retrieve_count [OF wf run] by (simp add: len polls0)
  from res one two three show "\<exists>st'. render_one_camera E ?inst cam st = Inr st'
       \<and> map (\<lambda>seg. take 1 seg = [PrinterRetrieve]) (segments (new_events st st')) =
           map (\<lambda>k. \<not> printer_empty E (printer_polls st + k)) [0..<?n]
       \<and> length (filter (\<lambda>e. e = PrinterRetrieve) (new_events st st')) =
           length (filter (\<lambda>k. \<not> printer_empty E (printer_polls st + k)) [0..<?n])
       \<and> printer_polls st' = printer_polls st + ?n"
    by (intro exI conjI)
qed

text \<open>
  Four dispatches with a display of interval 2, on an instance of a derived class whose
  \<^verbatim>\<open>Li\<close> returns; the printer is empty at even queries.
\<close>

theorem printer_retrieved_after_every_dispatch_witness:
  "\<exists>st'. render_one_camera (example_env 9) (example_instance 2 True) (example_camera [4])
            initial_state = Inr st'
     \<and> map (\<lambda>seg. take 1 seg = [PrinterRetrieve]) (segments (new_events initial_state st')) =
         [False, True, False, True]
     \<and> length (filter (\<lambda>e. e = PrinterRetrieve) (new_events initial_state st')) = 2
     \<and> printer_polls st' = 4"
proof -
  have total: "total_sub_samples (example_camera [4]) = 4"
    by (simp add: total_sub_samples_def example_camera_def)
  have upt4: "[0..<4] = [0, 1, 2, 3]"
    by (simp add: upt_rec)
  have flags: "map (\<lambda>k. \<not> printer_empty (example_env 9) (printer_polls initial_state + k))
      [0..<4] = [False, True, False, True]"
    by (simp add: upt4 example_env_def initial_state_def)
  have count: "length (filter (\<lambda>k. \<not> printer_empty (example_env 9)
      (printer_polls initial_state + k)) [0..<4]) = 2"
    by (simp add: upt4 example_env_def initial_state_def)
  have polls: "printer_polls initial_state + 4 = 4"
    by (simp add: initial_state_def)
  from printer_retrieved_after_every_dispatch [where li = example_Li
      and pl = "example_pipeline True" and scn = example_scene
      and desc = "example_desc [(''display_interval'', 2)] True"
      and cam = "example_camera [4]" and E = "example_env 9" and st = initial_state,
      THEN conjunct1, folded example_instance_def, THEN mp, OF example_kernel_defined]
  show ?thesis
    by (simp only: total flags count polls)
qed

section \<open>The dispatch counter\<close>

lemma example_cadences:
  "map (\<lambda>k. cadence_at (example_env 73) (example_instance 40 True) (0 + k)) [0..<104]
     = replicate 73 40 @ replicate 31 32"
proof -
  have disp: "inst_display (example_instance 40 True) \<noteq> None"
    by (simp add: example_instance_display)
  have interval: "(ucast (display_interval (inst_integrator (example_instance 40 True))) :: uint) = 40"
    by (rule example_interval) simp_all
  have cad: "cadence_at (example_env 73) (example_instance 40 True) k = (if k < 73 then 40 else 32)"
    for k
    using disp by (simp add: cadence_at_def interval example_env_def)
  have "map (\<lambda>k. cadence_at (example_env 73) (example_instance 40 True) (0 + k)) [0..<104]
      = map (\<lambda>k. if k < 73 then (40 :: uint) else 32) [0..<104]"
    by (simp add: cad)
  also have "\<dots> = replicate 73 40 @ replicate 31 32"
    by code_simp
  finally show ?thesis .
qed

lemma example_counts:
  "map snd (count_commits 0 (replicate 73 40 @ replicate 31 32))
     = replicate 39 False @ [True] @ replicate 63 False @ [True]"
  by code_simp

lemma render_one_camera_log:
  assumes wf: "display_interval (inst_integrator inst) \<noteq> 0"
    and smp: "inst_sampler inst \<noteq> None"
    and kd: "kernel_defined inst cam"
  shows "\<exists>st'. render_one_camera E inst cam st = Inr st'
     \<and> map it_cadence (new_iterations st st') =
         map (\<lambda>k. cadence_at E inst (close_polls st + k)) [0..<total_sub_samples cam]
     \<and> map (\<lambda>i. (it_count i, it_commit i)) (new_iterations st st') =
         count_commits 0 (map it_cadence (new_iterations st st'))
     \<and> map (list_ex is_progress) (segments (new_events st st')) =
         map it_commit (new_iterations st st')
     \<and> dispatch_count st' = counter_after 0 (map it_cadence (new_iterations st st'))"
proof -
  obtain st1 where run:
      "run_steps E inst cam (steps_of (shutter_samples cam)) (loop_entry cam st) = Inr st1"
    and res: "render_one_camera E inst cam st
      = Inr (st1\<lparr>trace := trace st1 @ [Synchronize, ProgressDone]\<rparr>)"
    and ev: "new_events st (st1\<lparr>trace := trace st1 @ [Synchronize, ProgressDone]\<rparr>) =
       prologue cam @ new_events (loop_entry cam st) st1 @ [Synchronize, ProgressDone]"
    and its: "new_iterations st (st1\<lparr>trace := trace st1 @ [Synchronize, ProgressDone]\<rparr>) =
       new_iterations (loop_entry cam st) st1"
    using render_one_camera_run [OF wf smp kd, of E st] by blast
  let ?st' = "st1\<lparr>trace := trace st1 @ [Synchronize, ProgressDone]\<rparr>"
  have len: "length (samples_of (steps_of (shutter_samples cam))) = total_sub_samples cam"
    by (simp add: length_samples_of_steps_of total_sub_samples_def)
  have entry: "dispatch_count (loop_entry cam st) = 0" "close_polls (loop_entry cam st) = close_polls st"
    by (simp_all add: loop_entry_def)
  have cad: "map it_cadence (new_iterations st ?st') =
         map (\<lambda>k. cadence_at E inst (close_polls st + k)) [0..<total_sub_samples cam]"
    using run_steps_cadences [OF wf run] by (simp only: its len entry)
  have cnt: "map (\<lambda>i. (it_count i, it_commit i)) (new_iterations st ?st') =
         count_commits 0 (map it_cadence (new_iterations st ?st'))"
    using run_steps_counts [OF wf run] by (simp only: its entry)
  have "map (list_ex is_progress) (segments (new_events st ?st')) =
      map (list_ex is_progress)
        (segments (new_events (loop_entry cam st) st1 @ [Synchronize, ProgressDone]))"
    by (simp only: ev segments_prologue)
  also have "\<dots> = map it_commit (new_iterations st ?st')"
    using run_steps_commits [OF wf run neutral_epilogue] by (simp only: its)
  finally have obs: "map (list_ex is_progress) (segments (new_events st ?st')) =
         map it_commit (new_iterations st ?st')" .
  have fin: "dispatch_count ?st' = counter_after 0 (map it_cadence (new_iterations st ?st'))"
    using run_steps_counts [OF wf run] by (simp add: its entry)
  from res cad cnt obs fin show ?thesis
    by blast
qed

lemma example_total: "total_sub_samples (example_camera [n]) = unat n"
  by (simp add: total_sub_samples_def example_camera_def)

text \<open>
  C10. Take any instance built by the constructors, of the base class or of a derived
  class with its own \<^verbatim>\<open>Li\<close>. If its kernel is defined, \<^verbatim>\<open>_render_one_camera\<close> returns,
  and at every dispatch the commit branch is taken exactly when the incremented dispatch
  counter is a multiple of the cadence of that dispatch; the counter starts at zero and
  goes back to zero exactly when a commit fires; a dispatch is followed by a progress
  report before the next dispatch exactly when its commit fires. If the kernel is not
  defined, \<^verbatim>\<open>_render_one_camera\<close> aborts before its loop, with no dispatch. So when the
  cadence changes between two commits, the next commit comes when the counter reaches a
  multiple of the new cadence, which can be later than the new cadence after the last
  commit: with interval 40 and a display that asks to close from its 74th answer on, the
  commits of 104 dispatches are the 40th and the 104th, 64 dispatches apart under the
  cadence 32.
\<close>

theorem commit_counter:
  "(kernel_defined (derived_instance li pl (ProgressiveIntegrator scn desc)) cam \<longrightarrow>
     (\<exists>st'. render_one_camera E
            (derived_instance li pl (ProgressiveIntegrator scn desc)) cam st = Inr st'
        \<and> map (\<lambda>i. (it_count i, it_commit i)) (new_iterations st st') =
            count_commits 0 (map it_cadence (new_iterations st st'))
        \<and> map (list_ex is_progress) (segments (new_events st st')) =
            map it_commit (new_iterations st st')
        \<and> dispatch_count st' = counter_after 0 (map it_cadence (new_iterations st st'))))
   \<and> (\<not> kernel_defined (derived_instance li pl (ProgressiveIntegrator scn desc)) cam \<longrightarrow>
     (\<exists>e st'. render_one_camera E
            (derived_instance li pl (ProgressiveIntegrator scn desc)) cam st = Inl (e, st')
        \<and> filter is_Dispatch (new_events st st') = []
        \<and> new_iterations st st' = []))
   \<and> (\<exists>st'. render_one_camera (example_env 73) (example_instance 40 True)
            (example_camera [104]) initial_state = Inr st'
      \<and> map it_cadence (new_iterations initial_state st') = replicate 73 40 @ replicate 31 32
      \<and> map it_commit (new_iterations initial_state st') =
          replicate 39 False @ [True] @ replicate 63 False @ [True])"
proof (intro conjI impI)
  let ?inst = "derived_instance li pl (ProgressiveIntegrator scn desc)"
  have wf: "display_interval (inst_integrator ?inst) \<noteq> 0"
    by (rule derived_interval_nonzero)
  have smp: "inst_sampler ?inst \<noteq> None"
    by (rule derived_sampler)
  {
    assume kd: "kernel_defined ?inst cam"
    from render_one_camera_log [OF wf smp kd, of E st]
    show "\<exists>st'. render_one_camera E ?inst cam st = Inr st'
        \<and> map (\<lambda>i. (it_count i, it_commit i)) (new_iterations st st') =
            count_commits 0 (map it_cadence (new_iterations st st'))
        \<and> map (list_ex is_progress) (segments (new_events st st')) =
            map it_commit (new_iterations st st')
        \<and> dispatch_count st' = counter_after 0 (map it_cadence (new_iterations st st'))"
      by blast
  }
  {
    assume nk: "\<not> kernel_defined ?inst cam"
    from render_one_camera_aborts [OF smp nk, of E st]
    obtain e where "render_one_camera E ?inst cam st = Inl (e, kernel_entry cam st)"
      by blast
    moreover have "filter is_Dispatch (new_events st (kernel_entry cam st)) = []"
      by (simp add: kernel_entry_events)
    moreover have "new_iterations st (kernel_entry cam st) = []"
      by (simp add: kernel_entry_events)
    ultimately show "\<exists>e st'. render_one_camera E ?inst cam st = Inl (e, st')
        \<and> filter is_Dispatch (new_events st st') = [] \<and> new_iterations st st' = []"
      by (intro exI conjI)
  }
  from render_one_camera_log [OF example_interval_nonzero example_instance_sampler
      example_kernel_defined, of "example_env 73" 40 True "example_camera [104]" initial_state]
  obtain st' where res: "render_one_camera (example_env 73) (example_instance 40 True)
        (example_camera [104]) initial_state = Inr st'"
    and cad: "map it_cadence (new_iterations initial_state st') =
         map (\<lambda>k. cadence_at (example_env 73) (example_instance 40 True)
                (close_polls initial_state + k)) [0..<total_sub_samples (example_camera [104])]"
    and cnt: "map (\<lambda>i. (it_count i, it_commit i)) (new_iterations initial_state st') =
         count_commits 0 (map it_cadence (new_iterations initial_state st'))"
    by blast
  have "close_polls initial_state = 0"
    by (simp add: initial_state_def)
  with cad have cad': "map it_cadence (new_iterations initial_state st')
      = replicate 73 40 @ replicate 31 32"
    by (simp only: example_total example_cadences) (simp add: example_cadences [simplified])
  have "map it_commit (new_iterations initial_state st')
      = map snd (map (\<lambda>i. (it_count i, it_commit i)) (new_iterations initial_state st'))"
    by (simp add: comp_def)
  also have "\<dots> = replicate 39 False @ [True] @ replicate 63 False @ [True]"
    by (simp only: cnt cad' example_counts)
  finally show "\<exists>st'. render_one_camera (example_env 73) (example_instance 40 True)
            (example_camera [104]) initial_state = Inr st'
      \<and> map it_cadence (new_iterations initial_state st') = replicate 73 40 @ replicate 31 32
      \<and> map it_commit (new_iterations initial_state st') =
          replicate 39 False @ [True] @ replicate 63 False @ [True]"
    using res cad' by blast
qed

text \<open>
  Interval 2, five dispatches, on an instance of a derived class whose \<^verbatim>\<open>Li\<close> returns;
  the display asks to close from its fourth answer on.
\<close>

theorem commit_counter_witness:
  "\<exists>st'. render_one_camera (example_env 3) (example_instance 2 True) (example_camera [2, 3])
            initial_state = Inr st'
     \<and> map (\<lambda>i. (it_count i, it_commit i)) (new_iterations initial_state st') =
         [(1, False), (2, True), (1, False), (2, False), (3, False)]
     \<and> map (list_ex is_progress) (segments (new_events initial_state st')) =
         [False, True, False, False, False]
     \<and> dispatch_count st' = 3"
proof -
  let ?run = "render_one_camera (example_env 3) (example_instance 2 True) (example_camera [2, 3])
      initial_state"
  from commit_counter [where li = example_Li and pl = "example_pipeline True"
      and scn = example_scene and desc = "example_desc [(''display_interval'', 2)] True"
      and cam = "example_camera [2, 3]" and E = "example_env 3" and st = initial_state,
      THEN conjunct1, folded example_instance_def, THEN mp, OF example_kernel_defined]
  obtain st' where res: "?run = Inr st'"
    and cnt: "map (\<lambda>i. (it_count i, it_commit i)) (new_iterations initial_state st') =
          count_commits 0 (map it_cadence (new_iterations initial_state st'))"
    and obs: "map (list_ex is_progress) (segments (new_events initial_state st')) =
          map it_commit (new_iterations initial_state st')"
    and fin: "dispatch_count st' =
          counter_after 0 (map it_cadence (new_iterations initial_state st'))"
    by (elim exE conjE)
  from render_one_camera_log [OF example_interval_nonzero example_instance_sampler
      example_kernel_defined, of "example_env 3" 2 True "example_camera [2, 3]" initial_state]
  obtain st'' where res': "?run = Inr st''"
    and cad'': "map it_cadence (new_iterations initial_state st'') =
      map (\<lambda>k. cadence_at (example_env 3) (example_instance 2 True)
             (close_polls initial_state + k)) [0..<total_sub_samples (example_camera [2, 3])]"
    by (elim exE conjE)
  from res res' have "st'' = st'"
    by simp
  with cad'' have "map it_cadence (new_iterations initial_state st') =
      map (\<lambda>k. cadence_at (example_env 3) (example_instance 2 True)
             (close_polls initial_state + k)) [0..<total_sub_samples (example_camera [2, 3])]"
    by simp
  moreover have "total_sub_samples (example_camera [2, 3]) = 5"
    by (simp add: total_sub_samples_def example_camera_def)
  moreover have "[0..<5] = [0, 1, 2, 3, 4]"
    by (simp add: upt_rec)
  moreover have "(ucast (display_interval (inst_integrator (example_instance 2 True))) :: uint) = 2"
    by (rule example_interval) simp_all
  ultimately have cad: "map it_cadence (new_iterations initial_state st') = [2, 2, 2, 32, 32]"
    by (simp add: cadence_at_def example_instance_display example_env_def initial_state_def)
  have c1: "count_commits 0 [2, 2, 2, 32, 32 :: uint]
      = [(1, False), (2, True), (1, False), (2, False), (3, False)]"
    by code_simp
  have c2: "counter_after 0 [2, 2, 2, 32, 32 :: uint] = 3"
    by code_simp
  from cnt have pairs: "map (\<lambda>i. (it_count i, it_commit i)) (new_iterations initial_state st') =
         [(1, False), (2, True), (1, False), (2, False), (3, False)]"
    by (simp only: cad c1)
  have "map it_commit (new_iterations initial_state st')
      = map snd (map (\<lambda>i. (it_count i, it_commit i)) (new_iterations initial_state st'))"
    by (simp add: comp_def)
  also have "\<dots> = [False, True, False, False, False]"
    by (simp only: pairs) simp
  finally have "map (list_ex is_progress) (segments (new_events initial_state st')) =
         [False, True, False, False, False]"
    by (simp only: obs)
  moreover from fin have "dispatch_count st' = 3"
    by (simp only: cad c2)
  ultimately show ?thesis
    using res pairs by (intro exI conjI)
qed

section \<open>Draining the display\<close>

lemma drain_display_None: "drain_display E None st = Some st"
  by (simp add: drain_display.simps)

lemma drain_display_stop:
  assumes "\<not> display_idle E (idle_polls st)"
  shows "drain_display E (Some d) st
     = Some (st\<lparr>idle_polls := Suc (idle_polls st), trace := trace st @ [DisplayIdle]\<rparr>)"
  using assms by (subst drain_display.simps) (simp add: emit_def)

lemma drain_display_continue:
  assumes "display_idle E (idle_polls st)"
  shows "drain_display E (Some d) st
     = drain_display E (Some d)
         (st\<lparr>idle_polls := Suc (idle_polls st), trace := trace st @ [DisplayIdle]\<rparr>)"
  using assms by (subst drain_display.simps) (simp add: emit_def)

lemma drain_display_polls:
  assumes "\<forall>i<j. display_idle E (idle_polls st + i)"
    and "\<not> display_idle E (idle_polls st + j)"
  shows "drain_display E (Some d) st
     = Some (st\<lparr>idle_polls := idle_polls st + Suc j,
               trace := trace st @ replicate (Suc j) DisplayIdle\<rparr>)"
  using assms
proof (induction j arbitrary: st)
  case 0
  then show ?case
    by (simp add: drain_display_stop)
next
  case (Suc j)
  let ?st1 = "st\<lparr>idle_polls := Suc (idle_polls st), trace := trace st @ [DisplayIdle]\<rparr>"
  from Suc.prems(1) have first: "display_idle E (idle_polls st)"
    by (metis add_0_right zero_less_Suc)
  have "\<forall>i<j. display_idle E (idle_polls ?st1 + i)"
    using Suc.prems(1) by (metis Suc_less_eq add_Suc_shift render_state.select_convs(5) render_state.surjective render_state.update_convs(1) render_state.update_convs(5))
  moreover have "\<not> display_idle E (idle_polls ?st1 + j)"
    using Suc.prems(2) by simp
  ultimately have "drain_display E (Some d) ?st1
     = Some (?st1\<lparr>idle_polls := idle_polls ?st1 + Suc j,
               trace := trace ?st1 @ replicate (Suc j) DisplayIdle\<rparr>)"
    by (rule Suc.IH)
  with first show ?case
    by (simp add: drain_display_continue replicate_app_Cons_same)
qed

lemma drain_display_Some_stops:
  assumes "drain_display E disp st = Some y"
  shows "disp = None \<or> (\<exists>j. \<not> display_idle E (idle_polls st + j))"
proof (rule drain_display.raw_induct
    [where P = "\<lambda>E disp st y. disp = None \<or> (\<exists>j. \<not> display_idle E (idle_polls st + j))",
      OF _ assms])
  fix f :: "env \<Rightarrow> Display option \<Rightarrow> ('a, 'b, 'c) render_state
    \<Rightarrow> ('a, 'b, 'c) render_state option"
    and E disp st y
  assume IH: "\<And>E disp st y. f E disp st = Some y
      \<Longrightarrow> disp = None \<or> (\<exists>j. \<not> display_idle E (idle_polls st + j))"
    and eq: "(case disp of None \<Rightarrow> Some st
      | Some d \<Rightarrow>
          if display_idle E (idle_polls st)
          then f E disp (emit DisplayIdle (st\<lparr>idle_polls := Suc (idle_polls st)\<rparr>))
          else Some (emit DisplayIdle (st\<lparr>idle_polls := Suc (idle_polls st)\<rparr>))) = Some y"
  show "disp = None \<or> (\<exists>j. \<not> display_idle E (idle_polls st + j))"
  proof (cases disp)
    case None
    then show ?thesis by simp
  next
    case (Some d)
    show ?thesis
    proof (cases "display_idle E (idle_polls st)")
      case True
      with Some eq
      have "f E disp (emit DisplayIdle (st\<lparr>idle_polls := Suc (idle_polls st)\<rparr>)) = Some y"
        by simp
      from IH [OF this] Some obtain j where
        "\<not> display_idle E (idle_polls (emit DisplayIdle (st\<lparr>idle_polls := Suc (idle_polls st)\<rparr>)) + j)"
        by auto
      then have "\<not> display_idle E (idle_polls st + Suc j)"
        by (simp add: emit_def)
      then show ?thesis
        by blast
    next
      case False
      then have "\<not> display_idle E (idle_polls st + 0)"
        by simp
      then show ?thesis
        by blast
    qed
  qed
qed

lemma drain_display_forever:
  assumes "\<forall>i. display_idle E (idle_polls st + i)"
  shows "drain_display E (Some d) st = None"
proof (cases "drain_display E (Some d) st")
  case None
  then show ?thesis .
next
  case (Some y)
  from drain_display_Some_stops [OF this] assms show ?thesis
    by simp
qed

lemma drain_display_Some_trace:
  assumes "drain_display E disp st = Some y"
  shows "\<exists>n. y = st\<lparr>idle_polls := idle_polls st + n, trace := trace st @ replicate n DisplayIdle\<rparr>"
proof (cases disp)
  case None
  with assms have "y = st"
    by (simp add: drain_display_None)
  then have "y = st\<lparr>idle_polls := idle_polls st + 0, trace := trace st @ replicate 0 DisplayIdle\<rparr>"
    by simp
  then show ?thesis
    by (rule exI)
next
  case (Some d)
  from drain_display_Some_stops [OF assms] Some
  obtain j where stop: "\<not> display_idle E (idle_polls st + j)"
    by auto
  define k where "k = (LEAST j. \<not> display_idle E (idle_polls st + j))"
  have "\<not> display_idle E (idle_polls st + k)"
    unfolding k_def using stop by (rule LeastI)
  moreover have "\<forall>i<k. display_idle E (idle_polls st + i)"
    unfolding k_def using not_less_Least by blast
  ultimately have "drain_display E (Some d) st
     = Some (st\<lparr>idle_polls := idle_polls st + Suc k,
               trace := trace st @ replicate (Suc k) DisplayIdle\<rparr>)"
    by (rule drain_display_polls [rotated])
  with assms Some have "y = st\<lparr>idle_polls := idle_polls st + Suc k,
               trace := trace st @ replicate (Suc k) DisplayIdle\<rparr>"
    by simp
  then show ?thesis
    by (rule exI)
qed

text \<open>
  C3, as stated, fails. The display of the example answers \<^verbatim>\<open>idle\<close> with true, true,
  false. The loop of line 48 calls \<^verbatim>\<open>idle\<close> three times, going on while the answer is
  true; a loop that drains while the display reports itself not idle would stop after the
  first call.
\<close>

theorem drain_display_not_as_specified:
  "drain_display (example_env 0) (Some (Display ''Display'')) initial_state
     = Some (initial_state\<lparr>idle_polls := 3, trace := [DisplayIdle, DisplayIdle, DisplayIdle]\<rparr>)
   \<and> drain_display_as_specified (example_env 0) (Some (Display ''Display'')) initial_state
     = Some (initial_state\<lparr>idle_polls := 1, trace := [DisplayIdle]\<rparr>)
   \<and> drain_display (example_env 0) (Some (Display ''Display'')) initial_state
     \<noteq> drain_display_as_specified (example_env 0) (Some (Display ''Display'')) initial_state"
proof -
  have code: "drain_display (example_env 0) (Some (Display ''Display'')) initial_state
     = Some (initial_state\<lparr>idle_polls := 3, trace := [DisplayIdle, DisplayIdle, DisplayIdle]\<rparr>)"
    by (simp add: drain_display.simps example_env_def initial_state_def emit_def)
  have spec: "drain_display_as_specified (example_env 0) (Some (Display ''Display'')) initial_state
     = Some (initial_state\<lparr>idle_polls := 1, trace := [DisplayIdle]\<rparr>)"
    by (simp add: drain_display_as_specified.simps example_env_def initial_state_def emit_def)
  have "initial_state\<lparr>idle_polls := 3, trace := [DisplayIdle, DisplayIdle, DisplayIdle]\<rparr>
      \<noteq> initial_state\<lparr>idle_polls := 1, trace := [DisplayIdle]\<rparr>"
    by (simp add: initial_state_def)
  with code spec show ?thesis
    by simp
qed

lemma render_cameras_Cons:
  assumes "render_one_camera E inst cam
      (case inst_display inst of
         None \<Rightarrow> emit (FilmPrepare cam) st
       | Some d \<Rightarrow> emit (DisplayReset cam) (emit (FilmPrepare cam) st)) = Inr st3"
  shows "render_cameras E inst (cam # cams) st =
     (case drain_display E (inst_display inst) st3 of
        None \<Rightarrow> None
      | Some st4 \<Rightarrow>
          render_cameras E inst cams
            (emit (SaveImage (cam_file cam) (film_resolution cam))
              (emit (FilmRelease cam)
                (emit Synchronize
                  (emit (FilmDownload cam
                     (vec_x (film_resolution cam) * vec_y (film_resolution cam))) st4)))))"
  using assms by (simp add: Let_def split: option.splits)

text \<open>
  C3, amended. The loop of line 48 is skipped when there is no display. With a display it
  calls \<^verbatim>\<open>idle\<close> exactly as long as the call returns true: it ends with the first call
  that returns false, and it never ends when every call returns true. In \<^verbatim>\<open>render\<close> the
  loop runs on the state that \<^verbatim>\<open>_render_one_camera\<close> returns, and the download of the
  pixels, the synchronization, the release and the image file of that camera come after
  it.
\<close>

theorem drain_display_while_idle:
  "drain_display E None st = Some st
   \<and> (\<forall>j. (\<forall>i<j. display_idle E (idle_polls st + i)) \<and> \<not> display_idle E (idle_polls st + j)
        \<longrightarrow> drain_display E (Some d) st =
            Some (st\<lparr>idle_polls := idle_polls st + Suc j,
                     trace := trace st @ replicate (Suc j) DisplayIdle\<rparr>))
   \<and> ((\<forall>i. display_idle E (idle_polls st + i)) \<longrightarrow> drain_display E (Some d) st = None)
   \<and> (\<forall>st3. render_one_camera E inst cam
          (case inst_display inst of
             None \<Rightarrow> emit (FilmPrepare cam) st
           | Some d \<Rightarrow> emit (DisplayReset cam) (emit (FilmPrepare cam) st)) = Inr st3
        \<longrightarrow> render_cameras E inst (cam # cams) st =
            (case drain_display E (inst_display inst) st3 of
               None \<Rightarrow> None
             | Some st4 \<Rightarrow>
                 render_cameras E inst cams
                   (emit (SaveImage (cam_file cam) (film_resolution cam))
                     (emit (FilmRelease cam)
                       (emit Synchronize
                         (emit (FilmDownload cam
                            (vec_x (film_resolution cam) * vec_y (film_resolution cam)))
                            st4))))))"
proof -
  have skipped: "drain_display E None st = Some st"
    by (rule drain_display_None)
  have stops: "\<forall>j. (\<forall>i<j. display_idle E (idle_polls st + i))
        \<and> \<not> display_idle E (idle_polls st + j)
        \<longrightarrow> drain_display E (Some d) st =
            Some (st\<lparr>idle_polls := idle_polls st + Suc j,
                     trace := trace st @ replicate (Suc j) DisplayIdle\<rparr>)"
  proof (rule allI, rule impI)
    fix j
    assume both: "(\<forall>i<j. display_idle E (idle_polls st + i))
      \<and> \<not> display_idle E (idle_polls st + j)"
    from both have before: "\<forall>i<j. display_idle E (idle_polls st + i)"
      by (rule conjunct1)
    from both have at: "\<not> display_idle E (idle_polls st + j)"
      by (rule conjunct2)
    from before at show "drain_display E (Some d) st =
        Some (st\<lparr>idle_polls := idle_polls st + Suc j,
                 trace := trace st @ replicate (Suc j) DisplayIdle\<rparr>)"
      by (rule drain_display_polls)
  qed
  have forever: "(\<forall>i. display_idle E (idle_polls st + i))
      \<longrightarrow> drain_display E (Some d) st = None"
    using drain_display_forever [of E st d] by (rule impI)
  have placed: "\<forall>st3. render_one_camera E inst cam
          (case inst_display inst of
             None \<Rightarrow> emit (FilmPrepare cam) st
           | Some d \<Rightarrow> emit (DisplayReset cam) (emit (FilmPrepare cam) st)) = Inr st3
        \<longrightarrow> render_cameras E inst (cam # cams) st =
            (case drain_display E (inst_display inst) st3 of
               None \<Rightarrow> None
             | Some st4 \<Rightarrow>
                 render_cameras E inst cams
                   (emit (SaveImage (cam_file cam) (film_resolution cam))
                     (emit (FilmRelease cam)
                       (emit Synchronize
                         (emit (FilmDownload cam
                            (vec_x (film_resolution cam) * vec_y (film_resolution cam)))
                            st4)))))"
    using render_cameras_Cons [of E inst cam st _ cams] by (intro allI impI)
  from skipped stops forever placed show ?thesis
    by (intro conjI)
qed

text \<open>
  No display; a display answering true, true, false; a display answering true for ever;
  and the place of the loop in a session of one camera.
\<close>

theorem drain_display_while_idle_witness:
  "drain_display (example_env 0) None initial_state = Some initial_state
   \<and> drain_display (example_env 0) (Some (Display ''Display'')) initial_state =
       Some (initial_state\<lparr>idle_polls := 3, trace := [DisplayIdle, DisplayIdle, DisplayIdle]\<rparr>)
   \<and> drain_display ((example_env 0)\<lparr>display_idle := \<lambda>k. True\<rparr>) (Some (Display ''Display''))
       initial_state = None
   \<and> (\<exists>st3. render_one_camera (example_env 0) (example_instance 5 True) (example_camera [4])
          (emit (DisplayReset (example_camera [4]))
             (emit (FilmPrepare (example_camera [4])) initial_state)) = Inr st3
        \<and> render_cameras (example_env 0) (example_instance 5 True) [example_camera [4]]
            initial_state =
            (case drain_display (example_env 0) (Some (Display ''Display'')) st3 of
               None \<Rightarrow> None
             | Some st4 \<Rightarrow>
                 Some (Inr
                   (emit (SaveImage ''out.exr'' (make_uint2 4 4))
                     (emit (FilmRelease (example_camera [4]))
                       (emit Synchronize
                         (emit (FilmDownload (example_camera [4]) 16) st4)))))))"
proof -
  let ?E = "example_env 0"
  let ?D = "Display ''Display''"
  let ?cam = "example_camera [4]"
  let ?st2 = "emit (DisplayReset ?cam) (emit (FilmPrepare ?cam) initial_state)"
  note main = drain_display_while_idle [of ?E initial_state ?D "example_instance 5 True" ?cam "[]"]
  note always = drain_display_while_idle
    [of "?E\<lparr>display_idle := \<lambda>k. True\<rparr>" initial_state ?D "example_instance 5 True" ?cam "[]"]
  from main have one: "drain_display ?E None initial_state = Some initial_state"
    by (elim conjE)
  from main have "\<forall>j. (\<forall>i<j. display_idle ?E (idle_polls initial_state + i))
        \<and> \<not> display_idle ?E (idle_polls initial_state + j)
        \<longrightarrow> drain_display ?E (Some ?D) initial_state =
            Some (initial_state\<lparr>idle_polls := idle_polls initial_state + Suc j,
                     trace := trace initial_state @ replicate (Suc j) DisplayIdle\<rparr>)"
    by (elim conjE)
  then have "(\<forall>i<2. display_idle ?E (idle_polls initial_state + i))
        \<and> \<not> display_idle ?E (idle_polls initial_state + 2)
        \<longrightarrow> drain_display ?E (Some ?D) initial_state =
            Some (initial_state\<lparr>idle_polls := idle_polls initial_state + Suc 2,
                     trace := trace initial_state @ replicate (Suc 2) DisplayIdle\<rparr>)"
    by (rule spec)
  moreover have "\<forall>i<2. display_idle ?E (idle_polls initial_state + i)"
    by (simp add: example_env_def initial_state_def)
  moreover have "\<not> display_idle ?E (idle_polls initial_state + 2)"
    by (simp add: example_env_def initial_state_def)
  ultimately have "drain_display ?E (Some ?D) initial_state =
            Some (initial_state\<lparr>idle_polls := idle_polls initial_state + Suc 2,
                     trace := trace initial_state @ replicate (Suc 2) DisplayIdle\<rparr>)"
    by (elim impE) (rule conjI)
  moreover have "idle_polls initial_state + Suc 2 = 3" "trace initial_state = []"
    by (simp_all add: initial_state_def)
  moreover have "replicate (Suc 2) DisplayIdle = [DisplayIdle, DisplayIdle, DisplayIdle :: int event]"
    by (simp add: numeral_2_eq_2)
  ultimately have two: "drain_display ?E (Some ?D) initial_state =
       Some (initial_state\<lparr>idle_polls := 3, trace := [DisplayIdle, DisplayIdle, DisplayIdle]\<rparr>)"
    by (simp only: append_Nil)
  from always have "(\<forall>i. display_idle (?E\<lparr>display_idle := \<lambda>k. True\<rparr>) (idle_polls initial_state + i))
      \<longrightarrow> drain_display (?E\<lparr>display_idle := \<lambda>k. True\<rparr>) (Some ?D) initial_state = None"
    by (elim conjE)
  moreover have "\<forall>i. display_idle (?E\<lparr>display_idle := \<lambda>k. True\<rparr>) (idle_polls initial_state + i)"
    by simp
  ultimately have three:
    "drain_display (?E\<lparr>display_idle := \<lambda>k. True\<rparr>) (Some ?D) initial_state = None"
    by (rule mp)
  from render_one_camera_log [OF example_interval_nonzero example_instance_sampler
      example_kernel_defined, of ?E 5 True ?cam ?st2]
  obtain st3 where roc: "render_one_camera ?E (example_instance 5 True) ?cam ?st2 = Inr st3"
    by (elim exE conjE)
  have disp: "inst_display (example_instance 5 True) = Some ?D"
    by (simp add: example_instance_display)
  have roc': "render_one_camera ?E (example_instance 5 True) ?cam
          (case inst_display (example_instance 5 True) of
             None \<Rightarrow> emit (FilmPrepare ?cam) initial_state
           | Some d \<Rightarrow> emit (DisplayReset ?cam) (emit (FilmPrepare ?cam) initial_state)) = Inr st3"
    by (simp only: disp option.case roc)
  have cam: "cam_file ?cam = ''out.exr''" "film_resolution ?cam = make_uint2 4 4"
    "vec_x (make_uint2 4 4) * vec_y (make_uint2 4 4) = 16"
    by (simp_all add: example_camera_def)
  from main have "\<forall>st3. render_one_camera ?E (example_instance 5 True) ?cam
          (case inst_display (example_instance 5 True) of
             None \<Rightarrow> emit (FilmPrepare ?cam) initial_state
           | Some d \<Rightarrow> emit (DisplayReset ?cam) (emit (FilmPrepare ?cam) initial_state)) = Inr st3
        \<longrightarrow> render_cameras ?E (example_instance 5 True) [?cam] initial_state =
            (case drain_display ?E (inst_display (example_instance 5 True)) st3 of
               None \<Rightarrow> None
             | Some st4 \<Rightarrow>
                 render_cameras ?E (example_instance 5 True) []
                   (emit (SaveImage (cam_file ?cam) (film_resolution ?cam))
                     (emit (FilmRelease ?cam)
                       (emit Synchronize
                         (emit (FilmDownload ?cam
                            (vec_x (film_resolution ?cam) * vec_y (film_resolution ?cam)))
                            st4)))))"
    by (elim conjE)
  from this [rule_format, OF roc']
  have "render_cameras ?E (example_instance 5 True) [?cam] initial_state =
            (case drain_display ?E (Some ?D) st3 of
               None \<Rightarrow> None
             | Some st4 \<Rightarrow>
                 Some (Inr
                   (emit (SaveImage ''out.exr'' (make_uint2 4 4))
                     (emit (FilmRelease ?cam)
                       (emit Synchronize
                         (emit (FilmDownload ?cam 16) st4))))))"
    by (simp only: disp cam render_cameras.simps(1))
  with roc have four: "\<exists>st3. render_one_camera ?E (example_instance 5 True) ?cam ?st2 = Inr st3
        \<and> render_cameras ?E (example_instance 5 True) [?cam] initial_state =
            (case drain_display ?E (Some ?D) st3 of
               None \<Rightarrow> None
             | Some st4 \<Rightarrow>
                 Some (Inr
                   (emit (SaveImage ''out.exr'' (make_uint2 4 4))
                     (emit (FilmRelease ?cam)
                       (emit Synchronize
                         (emit (FilmDownload ?cam 16) st4))))))"
    by (intro exI conjI)
  from one two three four show ?thesis
    by (intro conjI)
qed

section \<open>The sampler is reset before any dispatch\<close>

lemma ready_stable:
  assumes "\<forall>e \<in> set xs. stable e"
  shows "reset_before_dispatch cur True (xs @ ys) = reset_before_dispatch cur True ys"
  using assms
proof (induction xs)
  case Nil
  show ?case by simp
next
  case (Cons e xs)
  then have "stable e" and rest: "reset_before_dispatch cur True (xs @ ys) = reset_before_dispatch cur True ys"
    by simp_all
  from \<open>stable e\<close> have "reset_before_dispatch cur True (e # xs @ ys)
      = reset_before_dispatch cur True (xs @ ys)"
    by (cases e) simp_all
  with rest show ?case
    by simp
qed

lemma stable_chunk_tail: "\<forall>e \<in> set (chunk_tail E inst cam st). stable e"
  by (auto simp: chunk_tail_def commit_events_def split: option.splits if_splits)

lemma run_steps_stable:
  assumes wf: "display_interval (inst_integrator inst) \<noteq> 0"
    and run: "run_steps E inst cam xs st = Inr st'"
  shows "\<forall>e \<in> set (new_events st st'). stable e"
  using run
proof (induction xs arbitrary: st)
  case Nil
  then show ?case
    by (simp add: new_events_def)
next
  case (Cons x xs)
  from Cons.prems show ?case
  proof (cases rule: run_steps_cases)
    case (Advance t)
    from Cons.IH [OF Advance(2)] show ?thesis
      by (simp add: run_steps_Advance_events [OF wf Advance(2)])
  next
    case (Sample s st1)
    from Cons.IH [OF Sample(3)] stable_chunk_tail [of E inst cam st] show ?thesis
      by (simp add: run_steps_Sample_events [OF wf Sample(2,3)] ball_Un)
  qed
qed

lemma render_one_camera_events:
  assumes wf: "display_interval (inst_integrator inst) \<noteq> 0"
    and smp: "inst_sampler inst \<noteq> None"
  shows "\<exists>evs. trace (final_state (render_one_camera E inst cam st)) =
       trace st @ SamplerReset (film_resolution cam)
          (vec_x (film_resolution cam) * vec_y (film_resolution cam)) (cam_spp cam) # evs
     \<and> (\<forall>e \<in> set evs. stable e)"
proof (cases "kernel_defined inst cam")
  case True
  obtain st1 where run:
      "run_steps E inst cam (steps_of (shutter_samples cam)) (loop_entry cam st) = Inr st1"
    and res: "render_one_camera E inst cam st
      = Inr (st1\<lparr>trace := trace st1 @ [Synchronize, ProgressDone]\<rparr>)"
    using render_one_camera_run [OF wf smp True, of E st] by blast
  let ?evs = "[PrinterReset, Synchronize, CompileKernel cam, Synchronize, ProgressStart]
     @ new_events (loop_entry cam st) st1 @ [Synchronize, ProgressDone]"
  have "trace st1 = trace (loop_entry cam st) @ new_events (loop_entry cam st) st1"
    by (rule run_steps_trace [OF wf run])
  then have "trace (final_state (render_one_camera E inst cam st)) =
       trace st @ SamplerReset (film_resolution cam)
          (vec_x (film_resolution cam) * vec_y (film_resolution cam)) (cam_spp cam) # ?evs"
    by (simp add: res final_state_def loop_entry_def prologue_def)
  moreover have "\<forall>e \<in> set ?evs. stable e"
    using run_steps_stable [OF wf run] by simp
  ultimately show ?thesis
    by (intro exI conjI)
next
  case False
  from render_one_camera_aborts [OF smp False, of E st]
  obtain e where res: "render_one_camera E inst cam st = Inl (e, kernel_entry cam st)"
    by blast
  have "trace (final_state (render_one_camera E inst cam st)) =
       trace st @ SamplerReset (film_resolution cam)
          (vec_x (film_resolution cam) * vec_y (film_resolution cam)) (cam_spp cam)
        # [PrinterReset, Synchronize]"
    by (simp add: res final_state_def kernel_entry_def prologue_def)
  moreover have "\<forall>e \<in> set [PrinterReset, Synchronize :: 'a event]. stable e"
    by simp
  ultimately show ?thesis
    by (intro exI conjI)
qed

lemma drain_display_returns:
  assumes "disp = None \<or> (\<exists>j. \<not> display_idle E (idle_polls st + j))"
  shows "\<exists>st'. drain_display E disp st = Some st'"
proof (cases disp)
  case None
  then show ?thesis
    by (simp add: drain_display_None)
next
  case (Some d)
  with assms obtain j where stop: "\<not> display_idle E (idle_polls st + j)"
    by auto
  define k where "k = (LEAST j. \<not> display_idle E (idle_polls st + j))"
  have "\<not> display_idle E (idle_polls st + k)"
    unfolding k_def using stop by (rule LeastI)
  moreover have "\<forall>i<k. display_idle E (idle_polls st + i)"
    unfolding k_def using not_less_Least by blast
  ultimately have "drain_display E (Some d) st
     = Some (st\<lparr>idle_polls := idle_polls st + Suc k,
               trace := trace st @ replicate (Suc k) DisplayIdle\<rparr>)"
    by (rule drain_display_polls [rotated])
  with Some show ?thesis
    by simp
qed

lemma ready_camera:
  assumes stable: "\<forall>e \<in> set evs. stable e"
  shows "reset_before_dispatch cur armed
       ((case disp of None \<Rightarrow> [FilmPrepare cam] | Some d \<Rightarrow> [FilmPrepare cam, DisplayReset cam])
        @ SamplerReset (film_resolution cam)
            (vec_x (film_resolution cam) * vec_y (film_resolution cam)) (cam_spp cam)
        # evs @ rest)
     = reset_before_dispatch (Some cam) True rest"
proof -
  from stable have "reset_before_dispatch (Some cam) True (evs @ rest)
      = reset_before_dispatch (Some cam) True rest"
    by (rule ready_stable)
  then show ?thesis
    by (cases disp) simp_all
qed

lemma render_cameras_abort:
  assumes "render_one_camera E inst cam
       (case inst_display inst of
          None \<Rightarrow> emit (FilmPrepare cam) st
        | Some d \<Rightarrow> emit (DisplayReset cam) (emit (FilmPrepare cam) st)) = Inl x"
  shows "render_cameras E inst (cam # cams) st = Some (Inl x)"
  using assms by (simp add: Let_def split: option.splits)

lemma render_cameras_ready:
  assumes wf: "display_interval (inst_integrator inst) \<noteq> 0"
    and smp: "inst_sampler inst \<noteq> None"
    and run: "render_cameras E inst cams st = Some r"
  shows "\<exists>evs. trace (final_state r) = trace st @ evs \<and> reset_before_dispatch cur armed evs"
  using run
proof (induction cams arbitrary: st cur armed)
  case Nil
  then show ?case
    by (auto simp add: final_state_def)
next
  case (Cons cam cams)
  let ?pre = "case inst_display inst of
      None \<Rightarrow> [FilmPrepare cam] | Some d \<Rightarrow> [FilmPrepare cam, DisplayReset cam]"
  let ?st2 = "case inst_display inst of
      None \<Rightarrow> emit (FilmPrepare cam) st
    | Some d \<Rightarrow> emit (DisplayReset cam) (emit (FilmPrepare cam) st)"
  let ?reset = "SamplerReset (film_resolution cam)
      (vec_x (film_resolution cam) * vec_y (film_resolution cam)) (cam_spp cam)"
  have tr2: "trace ?st2 = trace st @ ?pre"
    by (simp add: emit_def split: option.split)
  from render_one_camera_events [OF wf smp, of E cam ?st2]
  obtain evs where tr3: "trace (final_state (render_one_camera E inst cam ?st2))
        = trace ?st2 @ ?reset # evs"
    and st: "\<forall>e \<in> set evs. stable e"
    by blast
  show ?case
  proof (cases "render_one_camera E inst cam ?st2")
    case (Inl x)
    from render_cameras_abort [OF Inl, of cams] Cons.prems have r: "r = Inl x"
      by simp
    have "final_state r = final_state (render_one_camera E inst cam ?st2)"
      by (simp only: r Inl)
    with tr3 tr2 have "trace (final_state r) = trace st @ (?pre @ ?reset # evs @ [])"
      by simp
    moreover have "reset_before_dispatch cur armed (?pre @ ?reset # evs @ [])"
      using ready_camera [OF st, where cur = cur and armed = armed
          and disp = "inst_display inst" and cam = cam and rest = "[]"] by simp
    ultimately show ?thesis
      by (intro exI conjI)
  next
    case (Inr st3)
    with tr3 have tr3': "trace st3 = trace ?st2 @ ?reset # evs"
      by (simp add: final_state_def)
    let ?after = "\<lambda>st4. emit (SaveImage (cam_file cam) (film_resolution cam))
       (emit (FilmRelease cam) (emit Synchronize (emit (FilmDownload cam
          (vec_x (film_resolution cam) * vec_y (film_resolution cam))) st4)))"
    from Cons.prems render_cameras_Cons [OF Inr, of cams]
    obtain st4 where drain: "drain_display E (inst_display inst) st3 = Some st4"
      and rest: "render_cameras E inst cams (?after st4) = Some r"
      by (cases "drain_display E (inst_display inst) st3") simp_all
    from drain_display_Some_trace [OF drain]
    obtain n where tr4: "trace st4 = trace st3 @ replicate n DisplayIdle"
      by auto
    let ?mid = "evs @ replicate n DisplayIdle
       @ [FilmDownload cam (vec_x (film_resolution cam) * vec_y (film_resolution cam)),
          Synchronize, FilmRelease cam, SaveImage (cam_file cam) (film_resolution cam)]"
    have tr5: "trace (?after st4) = trace st @ ?pre @ ?reset # ?mid"
      by (simp add: emit_def tr4 tr3' tr2)
    from Cons.IH [OF rest, of "Some cam" True]
    obtain evs' where tr': "trace (final_state r) = trace (?after st4) @ evs'"
      and ready: "reset_before_dispatch (Some cam) True evs'"
      by blast
    have "\<forall>e \<in> set ?mid. stable e"
      using st by auto
    then have "reset_before_dispatch cur armed (?pre @ ?reset # ?mid @ evs')
        = reset_before_dispatch (Some cam) True evs'"
      by (rule ready_camera)
    with ready have "reset_before_dispatch cur armed (?pre @ ?reset # ?mid @ evs')"
      by simp
    moreover have "trace (final_state r) = trace st @ (?pre @ ?reset # ?mid @ evs')"
      by (simp only: tr' tr5 append_assoc append_Cons)
    ultimately show ?thesis
      by (intro exI conjI)
  qed
qed

lemma render_cameras_returns:
  assumes wf: "display_interval (inst_integrator inst) \<noteq> 0"
    and smp: "inst_sampler inst \<noteq> None"
    and kd: "\<forall>cam \<in> set cams. kernel_defined inst cam"
    and drains: "inst_display inst = None \<or> (\<forall>k. \<exists>j. \<not> display_idle E (k + j))"
  shows "\<exists>st'. render_cameras E inst cams st = Some (Inr st')"
  using kd
proof (induction cams arbitrary: st)
  case Nil
  show ?case
    by simp
next
  case (Cons cam cams)
  let ?st2 = "case inst_display inst of
      None \<Rightarrow> emit (FilmPrepare cam) st
    | Some d \<Rightarrow> emit (DisplayReset cam) (emit (FilmPrepare cam) st)"
  from Cons.prems have kd1: "kernel_defined inst cam"
    and kd2: "\<forall>cam \<in> set cams. kernel_defined inst cam"
    by simp_all
  from render_one_camera_run [OF wf smp kd1, of E ?st2]
  obtain st3 where roc: "render_one_camera E inst cam ?st2 = Inr st3"
    by blast
  from drains have "inst_display inst = None \<or> (\<exists>j. \<not> display_idle E (idle_polls st3 + j))"
    by blast
  from drain_display_returns [OF this]
  obtain st4 where drain: "drain_display E (inst_display inst) st3 = Some st4"
    by blast
  show ?case
    using Cons.IH [OF kd2] by (simp only: render_cameras_Cons [OF roc] drain option.case)
qed

text \<open>
  C8. Take any instance built by the constructors, of the base class or of a derived
  class with its own \<^verbatim>\<open>Li\<close>. The first thing \<^verbatim>\<open>_render_one_camera\<close> does, whether it
  goes on to return or aborts in the definition of its kernel, is to reset the sampler
  with the camera's resolution, the product of the resolution's two components (in
  \<^verbatim>\<open>unsigned int\<close>) and the camera's \<^verbatim>\<open>spp\<close>, so every dispatch of that camera comes
  later; it returns when the kernel is defined. In every trace that \<^verbatim>\<open>render\<close>, called on
  the instance, leaves, returned or aborted, each dispatch comes after such a reset for
  the camera whose film was prepared last. \<^verbatim>\<open>render\<close> returns whenever the kernel of
  every camera is defined and there is no display or the display's \<^verbatim>\<open>idle\<close> keeps
  answering false from time to time.
\<close>

theorem sampler_reset_before_dispatch:
  "take 1 (new_events st (final_state (render_one_camera E
        (derived_instance li pl (ProgressiveIntegrator scn desc)) cam st))) =
      [SamplerReset (film_resolution cam)
         (vec_x (film_resolution cam) * vec_y (film_resolution cam)) (cam_spp cam)]
   \<and> (kernel_defined (derived_instance li pl (ProgressiveIntegrator scn desc)) cam
      \<longrightarrow> (\<exists>st1. render_one_camera E
             (derived_instance li pl (ProgressiveIntegrator scn desc)) cam st = Inr st1))
   \<and> (\<forall>r. render E (st\<lparr>self := derived_instance li pl (ProgressiveIntegrator scn desc)\<rparr>)
            = Some r
          \<longrightarrow> reset_before_dispatch None False (new_events st (final_state r)))
   \<and> ((\<forall>cam \<in> set (cameras pl).
          kernel_defined (derived_instance li pl (ProgressiveIntegrator scn desc)) cam)
        \<and> (inst_display (derived_instance li pl (ProgressiveIntegrator scn desc)) = None
           \<or> (\<forall>k. \<exists>j. \<not> display_idle E (k + j)))
      \<longrightarrow> (\<exists>st'. render E (st\<lparr>self := derived_instance li pl
             (ProgressiveIntegrator scn desc)\<rparr>) = Some (Inr st')))"
proof -
  let ?inst = "derived_instance li pl (ProgressiveIntegrator scn desc)"
  let ?S = "st\<lparr>self := ?inst\<rparr>"
  have wf: "display_interval (inst_integrator ?inst) \<noteq> 0"
    by (rule derived_interval_nonzero)
  have smp: "inst_sampler ?inst \<noteq> None"
    by (rule derived_sampler)
  have pl: "cameras (inst_pipeline ?inst) = cameras pl"
    by (simp add: derived_pipeline)
  have session: "render E ?S = render_cameras E ?inst (cameras pl) ?S"
    by (simp add: render_def pl)
  from render_one_camera_events [OF wf smp, of E cam st]
  obtain evs where "trace (final_state (render_one_camera E ?inst cam st)) =
       trace st @ SamplerReset (film_resolution cam)
          (vec_x (film_resolution cam) * vec_y (film_resolution cam)) (cam_spp cam) # evs"
    by blast
  then have first: "take 1 (new_events st (final_state (render_one_camera E ?inst cam st))) =
      [SamplerReset (film_resolution cam)
         (vec_x (film_resolution cam) * vec_y (film_resolution cam)) (cam_spp cam)]"
    by (simp add: new_events_def)
  have returns: "kernel_defined ?inst cam
      \<longrightarrow> (\<exists>st1. render_one_camera E ?inst cam st = Inr st1)"
  proof (rule impI)
    assume kd: "kernel_defined ?inst cam"
    from render_one_camera_run [OF wf smp kd, of E st]
    show "\<exists>st1. render_one_camera E ?inst cam st = Inr st1"
      by blast
  qed
  have second: "\<forall>r. render E ?S = Some r
      \<longrightarrow> reset_before_dispatch None False (new_events st (final_state r))"
  proof (rule allI, rule impI)
    fix r
    assume "render E ?S = Some r"
    then have "render_cameras E ?inst (cameras pl) ?S = Some r"
      by (simp only: session)
    from render_cameras_ready [OF wf smp this, of None False]
    obtain evs where "trace (final_state r) = trace ?S @ evs"
      and ready: "reset_before_dispatch None False evs"
      by blast
    then have "new_events st (final_state r) = evs"
      by (simp add: new_events_def)
    with ready show "reset_before_dispatch None False (new_events st (final_state r))"
      by simp
  qed
  have third: "(\<forall>cam \<in> set (cameras pl). kernel_defined ?inst cam)
        \<and> (inst_display ?inst = None \<or> (\<forall>k. \<exists>j. \<not> display_idle E (k + j)))
      \<longrightarrow> (\<exists>st'. render E ?S = Some (Inr st'))"
  proof (rule impI, elim conjE)
    assume kd: "\<forall>cam \<in> set (cameras pl). kernel_defined ?inst cam"
      and dr: "inst_display ?inst = None \<or> (\<forall>k. \<exists>j. \<not> display_idle E (k + j))"
    from render_cameras_returns [OF wf smp kd dr, of ?S]
    show "\<exists>st'. render E ?S = Some (Inr st')"
      by (simp only: session)
  qed
  from first returns second third show ?thesis
    by (intro conjI)
qed

text \<open>
  The session of two cameras, on an instance of a derived class whose \<^verbatim>\<open>Li\<close> returns,
  with a display of interval 2.
\<close>

theorem sampler_reset_before_dispatch_witness:
  "take 1 (new_events initial_state (final_state
        (render_one_camera (example_env 9) (example_instance 2 True) (example_camera [4])
           initial_state))) = [SamplerReset (make_uint2 4 4) 16 4]
   \<and> (\<exists>st'. render (example_env 9) (initial_state\<lparr>self := example_instance 2 True\<rparr>)
          = Some (Inr st')
      \<and> reset_before_dispatch None False (new_events initial_state st'))"
proof -
  let ?E = "example_env 9"
  let ?cam = "example_camera [4]"
  let ?S = "initial_state\<lparr>self := example_instance 2 True\<rparr>"
  note main = sampler_reset_before_dispatch [where li = example_Li
      and pl = "example_pipeline True" and scn = example_scene
      and desc = "example_desc [(''display_interval'', 2)] True"
      and cam = ?cam and E = ?E and st = initial_state, folded example_instance_def]
  have cam: "film_resolution ?cam = make_uint2 4 4" "cam_spp ?cam = 4"
    "vec_x (make_uint2 4 4) * vec_y (make_uint2 4 4) = 16"
    by (simp_all add: example_camera_def)
  from main have first: "take 1 (new_events initial_state (final_state
        (render_one_camera ?E (example_instance 2 True) ?cam initial_state)))
      = [SamplerReset (make_uint2 4 4) 16 4]"
    by (simp only: cam)
  have kd: "\<forall>cam \<in> set (cameras (example_pipeline True)).
      kernel_defined (example_instance 2 True) cam"
    by (simp add: example_kernel_defined)
  have "\<forall>k. \<exists>j. \<not> display_idle ?E (k + j)"
  proof
    fix k
    have "\<not> display_idle ?E (k + 2)"
      by (simp add: example_env_def)
    then show "\<exists>j. \<not> display_idle ?E (k + j)"
      by (rule exI)
  qed
  then have drains: "inst_display (example_instance 2 True) = None
      \<or> (\<forall>k. \<exists>j. \<not> display_idle ?E (k + j))"
    by (rule disjI2)
  from main have "(\<forall>cam \<in> set (cameras (example_pipeline True)).
          kernel_defined (example_instance 2 True) cam)
        \<and> (inst_display (example_instance 2 True) = None
          \<or> (\<forall>k. \<exists>j. \<not> display_idle ?E (k + j)))
      \<longrightarrow> (\<exists>st'. render ?E ?S = Some (Inr st'))"
    by (elim conjE)
  moreover from kd drains have "(\<forall>cam \<in> set (cameras (example_pipeline True)).
          kernel_defined (example_instance 2 True) cam)
        \<and> (inst_display (example_instance 2 True) = None
          \<or> (\<forall>k. \<exists>j. \<not> display_idle ?E (k + j)))"
    by (rule conjI)
  ultimately obtain st' where run: "render ?E ?S = Some (Inr st')"
    by (elim impE exE)
  from main have "\<forall>r. render ?E ?S = Some r
          \<longrightarrow> reset_before_dispatch None False (new_events initial_state (final_state r))"
    by (elim conjE)
  from this [rule_format, OF run]
  have "reset_before_dispatch None False (new_events initial_state st')"
    by (simp add: final_state_def)
  with run have second: "\<exists>st'. render ?E ?S = Some (Inr st')
      \<and> reset_before_dispatch None False (new_events initial_state st')"
    by (intro exI conjI)
  from first second show ?thesis
    by (intro conjI)
qed

section \<open>The light-sampler instance\<close>

lemma dispatches_per_commit_light_sampler:
  "dispatches_per_commit E (inst\<lparr>inst_light_sampler := x\<rparr>) st
     = dispatches_per_commit E inst st"
  by (simp add: dispatches_per_commit_def Let_def split: option.split)

lemma commit_light_sampler:
  "commit E (inst\<lparr>inst_light_sampler := x\<rparr>) spp st = commit E inst spp st"
  by (simp add: commit_def Let_def split: option.split)

lemma dispatch_one_light_sampler:
  "dispatch_one E (inst\<lparr>inst_light_sampler := x\<rparr>) cam s st = dispatch_one E inst cam s st"
  by (simp only: dispatch_one_def dispatches_per_commit_light_sampler commit_light_sampler)

lemma run_steps_light_sampler:
  "run_steps E (inst\<lparr>inst_light_sampler := x\<rparr>) cam xs st = run_steps E inst cam xs st"
proof (induction xs arbitrary: st)
  case Nil
  show ?case by simp
next
  case (Cons a xs)
  then show ?case
    by (cases a) (simp_all add: dispatch_one_light_sampler split: sum.split)
qed

lemma render_kernel_light_sampler:
  "render_kernel (inst\<lparr>inst_light_sampler := x\<rparr>) cam = render_kernel inst cam"
  by (simp add: render_kernel_def)

lemma shutter_loop_light_sampler:
  "shutter_loop E (inst\<lparr>inst_light_sampler := x\<rparr>) cam ss st = shutter_loop E inst cam ss st"
  by (simp only: shutter_loop_run_steps run_steps_light_sampler)

lemma render_one_camera_light_sampler:
  "render_one_camera E (inst\<lparr>inst_light_sampler := x\<rparr>) cam st = render_one_camera E inst cam st"
  by (simp add: render_one_camera_def render_kernel_light_sampler shutter_loop_light_sampler
      Let_def cong: sum.case_cong option.case_cong)

lemma render_cameras_light_sampler:
  "render_cameras E (inst\<lparr>inst_light_sampler := x\<rparr>) cams st = render_cameras E inst cams st"
proof (induction cams arbitrary: st)
  case Nil
  show ?case by simp
next
  case (Cons cam cams)
  show ?case
    by (simp add: render_one_camera_light_sampler Cons.IH Let_def
        cong: sum.case_cong option.case_cong)
qed

text \<open>
  The functions that \<open>render\<close> calls pass the object held in the state through: what they
  do does not depend on it, and they leave it as it is.
\<close>

lemma map_outcome_simps [simp]:
  "map_outcome f (Inl (e, st)) = Inl (e, f st)"
  "map_outcome f (Inr st) = Inr (f st)"
  by (simp_all add: map_outcome_def)

lemma final_state_simps [simp]:
  "final_state (Inl (e, st)) = st"
  "final_state (Inr st) = st"
  by (simp_all add: final_state_def)

lemma final_state_map_outcome: "final_state (map_outcome f r) = f (final_state r)"
  by (cases r) auto

lemma dispatch_one_zero:
  assumes "cadence_at E inst (close_polls st) = 0"
  shows "dispatch_one E inst cam s st =
     Inl (DivisionByZero,
          st\<lparr>trace := trace st
                @ Dispatch (sample_id st) (point_time s) (point_weight s) (film_resolution cam)
                  # (if printer_empty E (printer_polls st) then [] else [PrinterRetrieve]),
             sample_id := sample_id st + 1,
             printer_polls := Suc (printer_polls st),
             close_polls := close_polls st + (if inst_display inst = None then 0 else 1)\<rparr>)"
  using assms
  by (simp add: dispatch_one_def Let_def split_beta dpc_fst dpc_snd retrieve_printer_eq emit_def)

lemma fires_at_self: "fires_at E inst (st\<lparr>self := y\<rparr>) = fires_at E inst st"
  by (simp add: fires_at_def)

lemma chunk_tail_self: "chunk_tail E inst cam (st\<lparr>self := y\<rparr>) = chunk_tail E inst cam st"
  by (simp add: chunk_tail_def fires_at_self commit_events_def split: option.split)

lemma dispatch_one_self:
  "dispatch_one E inst cam s (st\<lparr>self := y\<rparr>)
     = map_outcome (\<lambda>s. s\<lparr>self := y\<rparr>) (dispatch_one E inst cam s st)"
proof (cases "cadence_at E inst (close_polls st) = 0")
  case True
  then have "cadence_at E inst (close_polls (st\<lparr>self := y\<rparr>)) = 0"
    by simp
  from dispatch_one_zero [OF this] dispatch_one_zero [OF True] show ?thesis
    by simp
next
  case False
  then have "cadence_at E inst (close_polls (st\<lparr>self := y\<rparr>)) \<noteq> 0"
    by simp
  from dispatch_one_eq [OF this] dispatch_one_eq [OF False] show ?thesis
    by (simp add: fires_at_self chunk_tail_self)
qed

lemma run_steps_self:
  "run_steps E inst cam xs (st\<lparr>self := y\<rparr>)
     = map_outcome (\<lambda>s. s\<lparr>self := y\<rparr>) (run_steps E inst cam xs st)"
proof (induction xs arbitrary: st)
  case Nil
  show ?case by simp
next
  case (Cons a xs)
  show ?case
  proof (cases a)
    case (Advance t)
    have "emit (PipelineUpdate t) (st\<lparr>self := y\<rparr>) = (emit (PipelineUpdate t) st)\<lparr>self := y\<rparr>"
      by (simp add: emit_def)
    with Advance Cons.IH show ?thesis
      by simp
  next
    case (Sample s)
    show ?thesis
    proof (cases "dispatch_one E inst cam s st")
      case (Inl x)
      then show ?thesis
        by (cases x) (simp add: Sample dispatch_one_self)
    next
      case (Inr st1)
      then show ?thesis
        by (simp add: Sample dispatch_one_self Cons.IH)
    qed
  qed
qed

lemma render_one_camera_self:
  "render_one_camera E inst cam (st\<lparr>self := y\<rparr>)
     = map_outcome (\<lambda>s. s\<lparr>self := y\<rparr>) (render_one_camera E inst cam st)"
proof (cases "inst_sampler inst")
  case None
  then show ?thesis
    by (simp add: render_one_camera_def)
next
  case (Some smp)
  then have smp: "inst_sampler inst \<noteq> None"
    by simp
  have entry: "loop_entry cam (st\<lparr>self := y\<rparr>) = (loop_entry cam st)\<lparr>self := y\<rparr>"
    "kernel_entry cam (st\<lparr>self := y\<rparr>) = (kernel_entry cam st)\<lparr>self := y\<rparr>"
    by (simp_all add: loop_entry_def kernel_entry_def)
  show ?thesis
  proof (cases "render_kernel inst cam")
    case (Inl e)
    then show ?thesis
      by (simp add: render_one_camera_eq [OF smp] entry)
  next
    case (Inr body)
    show ?thesis
    proof (cases "run_steps E inst cam (steps_of (shutter_samples cam)) (loop_entry cam st)")
      case (Inl x)
      then show ?thesis
        by (cases x) (simp add: render_one_camera_eq [OF smp] Inr entry run_steps_self)
    next
      case Inr2: (Inr st1)
      then show ?thesis
        by (simp add: render_one_camera_eq [OF smp] Inr entry run_steps_self)
    qed
  qed
qed

lemma drain_display_self:
  "drain_display E disp (st\<lparr>self := y\<rparr>)
     = map_option (\<lambda>s. s\<lparr>self := y\<rparr>) (drain_display E disp st)"
proof (cases disp)
  case None
  then show ?thesis
    by (simp add: drain_display_None)
next
  case (Some d)
  show ?thesis
  proof (cases "\<exists>j. \<not> display_idle E (idle_polls st + j)")
    case True
    then obtain j where stop: "\<not> display_idle E (idle_polls st + j)"
      by blast
    define k where "k = (LEAST j. \<not> display_idle E (idle_polls st + j))"
    have last: "\<not> display_idle E (idle_polls st + k)"
      unfolding k_def using stop by (rule LeastI)
    have before: "\<forall>i<k. display_idle E (idle_polls st + i)"
      unfolding k_def using not_less_Least by blast
    from before last have one: "drain_display E (Some d) st
       = Some (st\<lparr>idle_polls := idle_polls st + Suc k,
                 trace := trace st @ replicate (Suc k) DisplayIdle\<rparr>)"
      by (rule drain_display_polls)
    from before last have "\<forall>i<k. display_idle E (idle_polls (st\<lparr>self := y\<rparr>) + i)"
      and "\<not> display_idle E (idle_polls (st\<lparr>self := y\<rparr>) + k)"
      by simp_all
    then have "drain_display E (Some d) (st\<lparr>self := y\<rparr>)
       = Some (st\<lparr>self := y\<rparr>\<lparr>idle_polls := idle_polls (st\<lparr>self := y\<rparr>) + Suc k,
                 trace := trace (st\<lparr>self := y\<rparr>) @ replicate (Suc k) DisplayIdle\<rparr>)"
      by (rule drain_display_polls)
    with one Some show ?thesis
      by simp
  next
    case False
    then have all: "\<forall>i. display_idle E (idle_polls st + i)"
      by simp
    then have "\<forall>i. display_idle E (idle_polls (st\<lparr>self := y\<rparr>) + i)"
      by simp
    then have "drain_display E (Some d) (st\<lparr>self := y\<rparr>) = None"
      by (rule drain_display_forever)
    moreover from all have "drain_display E (Some d) st = None"
      by (rule drain_display_forever)
    ultimately show ?thesis
      using Some by simp
  qed
qed

lemma render_cameras_self:
  "render_cameras E inst cams (st\<lparr>self := y\<rparr>)
     = map_option (map_outcome (\<lambda>s. s\<lparr>self := y\<rparr>)) (render_cameras E inst cams st)"
proof (induction cams arbitrary: st)
  case Nil
  show ?case by simp
next
  case (Cons cam cams)
  let ?U = "\<lambda>s. s\<lparr>self := y\<rparr>"
  let ?st2 = "case inst_display inst of
      None \<Rightarrow> emit (FilmPrepare cam) st
    | Some d \<Rightarrow> emit (DisplayReset cam) (emit (FilmPrepare cam) st)"
  let ?after = "\<lambda>st4. emit (SaveImage (cam_file cam) (film_resolution cam))
     (emit (FilmRelease cam) (emit Synchronize (emit (FilmDownload cam
        (vec_x (film_resolution cam) * vec_y (film_resolution cam))) st4)))"
  have st2: "(case inst_display inst of
      None \<Rightarrow> emit (FilmPrepare cam) (?U st)
    | Some d \<Rightarrow> emit (DisplayReset cam) (emit (FilmPrepare cam) (?U st))) = ?U ?st2"
    by (simp add: emit_def split: option.split)
  have after: "?after (?U st4) = ?U (?after st4)" for st4
    by (simp add: emit_def)
  show ?case
  proof (cases "render_one_camera E inst cam ?st2")
    case (Inl x)
    obtain e st3 where x: "x = (e, st3)"
      by (cases x)
    from Inl x have "render_one_camera E inst cam (?U ?st2) = Inl (e, ?U st3)"
      by (simp add: render_one_camera_self)
    then have "render_cameras E inst (cam # cams) (?U st) = Some (Inl (e, ?U st3))"
      by (simp only: st2 [symmetric]) (rule render_cameras_abort)
    moreover from Inl x have "render_cameras E inst (cam # cams) st = Some (Inl (e, st3))"
      by (simp only: render_cameras_abort)
    ultimately show ?thesis
      by simp
  next
    case (Inr st3)
    then have roc: "render_one_camera E inst cam (?U ?st2) = Inr (?U st3)"
      by (simp add: render_one_camera_self)
    have left: "render_cameras E inst (cam # cams) (?U st) =
        (case drain_display E (inst_display inst) (?U st3) of
           None \<Rightarrow> None
         | Some st4 \<Rightarrow> render_cameras E inst cams (?after st4))"
      using roc by (simp only: st2 [symmetric]) (rule render_cameras_Cons)
    have right: "render_cameras E inst (cam # cams) st =
        (case drain_display E (inst_display inst) st3 of
           None \<Rightarrow> None
         | Some st4 \<Rightarrow> render_cameras E inst cams (?after st4))"
      using Inr by (rule render_cameras_Cons)
    show ?thesis
    proof (cases "drain_display E (inst_display inst) st3")
      case None
      then show ?thesis
        by (simp only: left right drain_display_self) simp
    next
      case (Some st4)
      then have "drain_display E (inst_display inst) (?U st3) = Some (?U st4)"
        by (simp add: drain_display_self)
      then have "render_cameras E inst (cam # cams) (?U st)
          = render_cameras E inst cams (?U (?after st4))"
        by (simp only: left option.case after)
      also have "\<dots> = map_option (map_outcome ?U) (render_cameras E inst cams (?after st4))"
        by (rule Cons.IH)
      also have "render_cameras E inst cams (?after st4) = render_cameras E inst (cam # cams) st"
        by (simp only: right Some option.case)
      finally show ?thesis .
    qed
  qed
qed

lemma render_cameras_frame:
  assumes "render_cameras E inst cams st = Some r"
  shows "self (final_state r) = self st"
proof -
  have "render_cameras E inst cams (st\<lparr>self := self st\<rparr>)
      = map_option (map_outcome (\<lambda>s. s\<lparr>self := self st\<rparr>)) (render_cameras E inst cams st)"
    by (rule render_cameras_self)
  then have "Some r = Some (map_outcome (\<lambda>s. s\<lparr>self := self st\<rparr>) r)"
    by (simp add: assms)
  then have "r = map_outcome (\<lambda>s. s\<lparr>self := self st\<rparr>) r"
    by (simp only: option.inject)
  then have "final_state r = final_state (map_outcome (\<lambda>s. s\<lparr>self := self st\<rparr>) r)"
    by (rule arg_cong)
  then have "final_state r = (final_state r)\<lparr>self := self st\<rparr>"
    by (simp only: final_state_map_outcome)
  then have "self (final_state r) = self ((final_state r)\<lparr>self := self st\<rparr>)"
    by (rule arg_cong)
  then show ?thesis
    by simp
qed

lemma render_one_camera_frame:
  "self (final_state (render_one_camera E inst cam st)) = self st"
proof -
  let ?r = "render_one_camera E inst cam st"
  have "render_one_camera E inst cam (st\<lparr>self := self st\<rparr>)
      = map_outcome (\<lambda>s. s\<lparr>self := self st\<rparr>) ?r"
    by (rule render_one_camera_self)
  then have "?r = map_outcome (\<lambda>s. s\<lparr>self := self st\<rparr>) ?r"
    by simp
  then have "final_state ?r = final_state (map_outcome (\<lambda>s. s\<lparr>self := self st\<rparr>) ?r)"
    by (rule arg_cong)
  then have "final_state ?r = (final_state ?r)\<lparr>self := self st\<rparr>"
    by (simp only: final_state_map_outcome)
  then have "self (final_state ?r) = self ((final_state ?r)\<lparr>self := self st\<rparr>)"
    by (rule arg_cong)
  then show ?thesis
    by simp
qed

lemma render_set_light_sampler:
  "render E (set_light_sampler x st) = map_option (map_outcome (set_light_sampler x)) (render E st)"
proof -
  let ?y = "(self st)\<lparr>inst_light_sampler := x\<rparr>"
  have "render E (set_light_sampler x st)
      = render_cameras E ?y (cameras (inst_pipeline (self st))) (st\<lparr>self := ?y\<rparr>)"
    by (simp add: render_def set_light_sampler_def)
  also have "\<dots> = render_cameras E (self st) (cameras (inst_pipeline (self st))) (st\<lparr>self := ?y\<rparr>)"
    by (rule render_cameras_light_sampler)
  also have "\<dots> = map_option (map_outcome (\<lambda>s. s\<lparr>self := ?y\<rparr>)) (render E st)"
    by (simp only: render_cameras_self render_def)
  also have "\<dots> = map_option (map_outcome (set_light_sampler x)) (render E st)"
  proof (cases "render E st")
    case None
    then show ?thesis by simp
  next
    case (Some r)
    then have "self (final_state r) = self st"
      unfolding render_def by (rule render_cameras_frame)
    then have "map_outcome (\<lambda>s. s\<lparr>self := ?y\<rparr>) r = map_outcome (set_light_sampler x) r"
      by (cases r) (auto simp add: set_light_sampler_def)
    with Some show ?thesis
      by simp
  qed
  finally show ?thesis .
qed

text \<open>
  By contrast the pointer to the sampler instance is dereferenced, at line 66: with a
  null pointer there \<^verbatim>\<open>_render_one_camera\<close> fails at once.
\<close>

lemma render_one_camera_dereferences_sampler:
  "render_one_camera E (inst\<lparr>inst_sampler := None\<rparr>) cam st = Inl (NullDereference, st)"
  by (simp add: render_one_camera_def)

lemma example_render_returns: "\<exists>st'. render (example_env 9) initial_state = Some (Inr st')"
proof -
  have self: "self initial_state = example_instance 2 True"
    by (simp add: initial_state_def)
  have wf: "display_interval (inst_integrator (self initial_state)) \<noteq> 0"
    unfolding self by (rule example_interval_nonzero)
  have smp: "inst_sampler (self initial_state) \<noteq> None"
    unfolding self by (rule example_instance_sampler)
  have kd: "\<forall>cam \<in> set (cameras (inst_pipeline (self initial_state))).
      kernel_defined (self initial_state) cam"
    by (simp add: self example_kernel_defined)
  have "\<forall>k. \<exists>j. \<not> display_idle (example_env 9) (k + j)"
  proof
    fix k
    have "\<not> display_idle (example_env 9) (k + 2)"
      by (simp add: example_env_def)
    then show "\<exists>j. \<not> display_idle (example_env 9) (k + j)"
      by (rule exI)
  qed
  then have drains: "inst_display (self initial_state) = None
      \<or> (\<forall>k. \<exists>j. \<not> display_idle (example_env 9) (k + j))"
    by (rule disjI2)
  from render_cameras_returns [OF wf smp kd drains, of initial_state] show ?thesis
    by (simp only: render_def)
qed

text \<open>
  C6. The constructor of \<^verbatim>\<open>Integrator::Instance\<close> sets the pointer to the light-sampler
  instance to the instance that the light sampler builds if the pipeline has lighting,
  and to the null pointer otherwise: the member is non-null exactly when the pipeline has
  lighting. The constructors of the derived classes keep it. The member is never
  reassigned: in the state that \<^verbatim>\<open>render\<close> or \<^verbatim>\<open>_render_one_camera\<close> leaves, returned
  or aborted, the object has the pointer it had at the call. The member is never
  dereferenced: with any other pointer in its place, the null pointer included, a session
  does the same and ends the same, but for that pointer. (A null pointer to the sampler
  instance, by contrast, makes \<^verbatim>\<open>_render_one_camera\<close> fail at once.)
\<close>

theorem light_sampler_iff_lighting:
  "(inst_light_sampler (Integrator_Instance pl integrator) \<noteq> None) = has_lighting pl
   \<and> inst_light_sampler (Integrator_Instance pl integrator) =
       (if has_lighting pl then Some (node_build (node_light_sampler integrator) pl) else None)
   \<and> inst_light_sampler (ProgressiveIntegrator_Instance pl node)
       = inst_light_sampler (Integrator_Instance pl node)
   \<and> inst_light_sampler (derived_instance li pl node)
       = inst_light_sampler (Integrator_Instance pl node)
   \<and> (\<forall>r. render E st = Some r
        \<longrightarrow> inst_light_sampler (self (final_state r)) = inst_light_sampler (self st))
   \<and> inst_light_sampler (self (final_state (render_one_camera E inst cam st)))
       = inst_light_sampler (self st)
   \<and> render E (set_light_sampler x st)
       = map_option (map_outcome (set_light_sampler x)) (render E st)
   \<and> render_one_camera E (inst\<lparr>inst_light_sampler := x\<rparr>) cam st
       = render_one_camera E inst cam st"
proof -
  have one: "(inst_light_sampler (Integrator_Instance pl integrator) \<noteq> None) = has_lighting pl"
    by (simp add: Integrator_Instance_def)
  have two: "inst_light_sampler (Integrator_Instance pl integrator) =
       (if has_lighting pl then Some (node_build (node_light_sampler integrator) pl) else None)"
    by (simp add: Integrator_Instance_def)
  have three: "inst_light_sampler (ProgressiveIntegrator_Instance pl node)
       = inst_light_sampler (Integrator_Instance pl node)"
    by (simp add: ProgressiveIntegrator_Instance_def Let_def)
  have four: "inst_light_sampler (derived_instance li pl node)
       = inst_light_sampler (Integrator_Instance pl node)"
    by (simp add: derived_instance_def ProgressiveIntegrator_Instance_def Let_def)
  have five: "\<forall>r. render E st = Some r
        \<longrightarrow> inst_light_sampler (self (final_state r)) = inst_light_sampler (self st)"
  proof (rule allI, rule impI)
    fix r
    assume "render E st = Some r"
    then have "self (final_state r) = self st"
      unfolding render_def by (rule render_cameras_frame)
    then show "inst_light_sampler (self (final_state r)) = inst_light_sampler (self st)"
      by (rule arg_cong)
  qed
  have six: "inst_light_sampler (self (final_state (render_one_camera E inst cam st)))
       = inst_light_sampler (self st)"
    by (simp only: render_one_camera_frame)
  have seven: "render E (set_light_sampler x st)
       = map_option (map_outcome (set_light_sampler x)) (render E st)"
    by (rule render_set_light_sampler)
  have eight: "render_one_camera E (inst\<lparr>inst_light_sampler := x\<rparr>) cam st
       = render_one_camera E inst cam st"
    by (rule render_one_camera_light_sampler)
  from one two three four five six seven eight show ?thesis
    by (intro conjI)
qed

text \<open>
  A pipeline with lighting and one without; the session of two cameras, which ends with
  the pointer it began with, and the same session begun with the null pointer.
\<close>

theorem light_sampler_iff_lighting_witness:
  "inst_light_sampler (Integrator_Instance (example_pipeline True)
      (Integrator example_scene (example_desc [] False))) \<noteq> None
   \<and> inst_light_sampler (Integrator_Instance (example_pipeline False)
      (Integrator example_scene (example_desc [] False))) = None
   \<and> inst_light_sampler (self initial_state) = Some ()
   \<and> (\<exists>st'. render (example_env 9) initial_state = Some (Inr st')
        \<and> inst_light_sampler (self st') = Some ()
        \<and> render (example_env 9) (set_light_sampler None initial_state)
            = Some (Inr (set_light_sampler None st')))"
proof -
  let ?node = "Integrator example_scene (example_desc [] False)"
  let ?pnode = "ProgressiveIntegrator example_scene (example_desc [(''display_interval'', 2)] True)"
  note lit = light_sampler_iff_lighting [where integrator = ?node
      and pl = "example_pipeline True" and node = ?pnode and li = example_Li
      and E = "example_env 9" and inst = "example_instance 2 True" and x = None
      and cam = "example_camera [4]" and st = initial_state]
  note dark = light_sampler_iff_lighting [where integrator = ?node
      and pl = "example_pipeline False" and node = ?pnode and li = example_Li
      and E = "example_env 9" and inst = "example_instance 2 True" and x = None
      and cam = "example_camera [4]" and st = initial_state]
  have lights: "has_lighting (example_pipeline True)" "\<not> has_lighting (example_pipeline False)"
    by (simp_all add: example_pipeline_def)
  from lit have "(inst_light_sampler (Integrator_Instance (example_pipeline True) ?node) \<noteq> None)
        = has_lighting (example_pipeline True)"
    by (rule conjunct1)
  with lights(1)
  have one: "inst_light_sampler (Integrator_Instance (example_pipeline True) ?node) \<noteq> None"
    by simp
  from dark have "(inst_light_sampler (Integrator_Instance (example_pipeline False) ?node) \<noteq> None)
        = has_lighting (example_pipeline False)"
    by (rule conjunct1)
  with lights(2)
  have "\<not> inst_light_sampler (Integrator_Instance (example_pipeline False) ?node) \<noteq> None"
    by (simp only: simp_thms)
  then have two: "inst_light_sampler (Integrator_Instance (example_pipeline False) ?node) = None"
    by (simp only: not_not)
  from lit have "inst_light_sampler (derived_instance example_Li (example_pipeline True) ?pnode)
       = inst_light_sampler (Integrator_Instance (example_pipeline True) ?pnode)"
    by (elim conjE)
  then have three: "inst_light_sampler (self initial_state) = Some ()"
    by (simp add: initial_state_def example_instance_def Integrator_Instance_def lights)
  from example_render_returns obtain st' where
    run: "render (example_env 9) initial_state = Some (Inr st')"
    by (rule exE)
  from lit have "\<forall>r. render (example_env 9) initial_state = Some r
        \<longrightarrow> inst_light_sampler (self (final_state r)) = inst_light_sampler (self initial_state)"
    by (elim conjE)
  from this [rule_format, OF run] three have kept: "inst_light_sampler (self st') = Some ()"
    by (simp add: final_state_def)
  from lit have "render (example_env 9) (set_light_sampler None initial_state)
       = map_option (map_outcome (set_light_sampler None)) (render (example_env 9) initial_state)"
    by (elim conjE)
  then have null: "render (example_env 9) (set_light_sampler None initial_state)
            = Some (Inr (set_light_sampler None st'))"
    by (simp add: run map_outcome_def)
  from run kept null have four: "\<exists>st'. render (example_env 9) initial_state = Some (Inr st')
        \<and> inst_light_sampler (self st') = Some ()
        \<and> render (example_env 9) (set_light_sampler None initial_state)
            = Some (Inr (set_light_sampler None st'))"
    by (intro exI conjI)
  from one two three four show ?thesis
    by (intro conjI)
qed

end
